theory Spec2Isabelle
  imports Main "HOL-Library.Multiset" "HOL-Library.Monad_Syntax"
begin

section \<open>Python lists with integer indices\<close>

text \<open>
  The generators of \<^verbatim>\<open>algorithms.py\<close> work on a Python list through integer indices.
  Python integers are unbounded, so indices are \<^typ>\<open>int\<close>. An index read or write
  \<^verbatim>\<open>a[i]\<close> accepts \<open>-len(a) \<le> i < len(a)\<close> (a negative index counts from the end) and
  raises \<^verbatim>\<open>IndexError\<close> otherwise. \<^verbatim>\<open>IndexError\<close> is the only exception the sorting
  code can raise, so a computation that may raise returns an \<^typ>\<open>'a option\<close> and
  \<open>None\<close> stands for the raised \<^verbatim>\<open>IndexError\<close>.
\<close>

definition py_len :: "'a list \<Rightarrow> int" where
  "py_len a = int (length a)"

definition py_index :: "'a list \<Rightarrow> int \<Rightarrow> nat option" where
  "py_index a i =
     (let n = py_len a; j = (if i < 0 then i + n else i)
      in if 0 \<le> j \<and> j < n then Some (nat j) else None)"

definition py_get :: "'a list \<Rightarrow> int \<Rightarrow> 'a option" where
  "py_get a i = (case py_index a i of None \<Rightarrow> None | Some k \<Rightarrow> Some (a ! k))"

definition py_set :: "'a list \<Rightarrow> int \<Rightarrow> 'a \<Rightarrow> 'a list option" where
  "py_set a i v = (case py_index a i of None \<Rightarrow> None | Some k \<Rightarrow> Some (a[k := v]))"

text \<open>
  The tuple assignment \<^verbatim>\<open>a[i], a[j] = a[j], a[i]\<close>: the right-hand side is read first,
  left to right, then the two targets are written, left to right.
\<close>

definition py_swap :: "'a list \<Rightarrow> int \<Rightarrow> int \<Rightarrow> 'a list option" where
  "py_swap a i j =
     do { x \<leftarrow> py_get a j;
          y \<leftarrow> py_get a i;
          a1 \<leftarrow> py_set a i x;
          py_set a1 j y }"

text \<open>A slice \<^verbatim>\<open>a[lo:hi]\<close> never raises: both bounds are clamped to the list.\<close>

definition py_clamp :: "'a list \<Rightarrow> int \<Rightarrow> nat" where
  "py_clamp a i =
     (let n = py_len a; j = (if i < 0 then i + n else i)
      in nat (min n (max 0 j)))"

definition py_slice :: "'a list \<Rightarrow> int \<Rightarrow> int \<Rightarrow> 'a list" where
  "py_slice a lo hi = take (py_clamp a hi - py_clamp a lo) (drop (py_clamp a lo) a)"

text \<open>\<^verbatim>\<open>list(range(lo, hi))\<close>.\<close>

definition py_range :: "int \<Rightarrow> int \<Rightarrow> int list" where
  "py_range lo hi = [lo..hi - 1]"

text \<open>\<^verbatim>\<open>str(i)\<close> of an integer, as the f-string of the merge label formats it.\<close>

fun str_nat :: "nat \<Rightarrow> string" where
  "str_nat n =
     (if n < 10 then [char_of (48 + n)]
      else str_nat (n div 10) @ [char_of (48 + n mod 10)])"

definition str_int :: "int \<Rightarrow> string" where
  "str_int i = (if i < 0 then CHR ''-'' # str_nat (nat (- i)) else str_nat (nat i))"

section \<open>Snapshots\<close>

text \<open>
  A snapshot is the pair \<^verbatim>\<open>(array_copy, info_dict)\<close>. The dictionary always has the key
  \<^verbatim>\<open>'active'\<close>; the keys \<^verbatim>\<open>'sorted'\<close> and \<^verbatim>\<open>'label'\<close> are present in some frames only,
  hence the options.
\<close>

record 'a snapshot =
  array :: "'a list"
  active :: "int list"
  sorted_idx :: "int list option"
  label :: "string option"

definition snap :: "'a list \<Rightarrow> int list \<Rightarrow> int list option \<Rightarrow> string option \<Rightarrow> 'a snapshot" where
  "snap a act srt lbl = \<lparr>array = a, active = act, sorted_idx = srt, label = lbl\<rparr>"

section \<open>Loops that yield\<close>

text \<open>
  \<^verbatim>\<open>for j in range(lo, hi): body\<close>, where the body updates the loop state \<open>s\<close> and yields
  snapshots. The result is the final state with everything yielded, in order.
\<close>

function for_range ::
  "int \<Rightarrow> int \<Rightarrow> (int \<Rightarrow> 's \<Rightarrow> ('s \<times> 'x list) option) \<Rightarrow> 's \<Rightarrow> ('s \<times> 'x list) option" where
  "for_range lo hi body s =
     (if lo < hi then
        do { (s1, out1) \<leftarrow> body lo s;
             (s2, out2) \<leftarrow> for_range (lo + 1) hi body s1;
             Some (s2, out1 @ out2) }
      else Some (s, []))"
  by pat_completeness auto
termination
  by (relation "measure (\<lambda>(lo, hi, body, s). nat (hi - lo))") auto

declare for_range.simps [simp del]

text \<open>Invariant rules for the loop: \<open>I j s acc\<close> relates the index, the state and what has
  been yielded so far. The first is for a run that is known to return, the second also
  shows that the run returns.\<close>

lemma for_range_inv_aux:
  assumes step: "\<And>j t acc t1 out. lo \<le> j \<Longrightarrow> j < hi \<Longrightarrow> I j t acc \<Longrightarrow> body j t = Some (t1, out) \<Longrightarrow> I (j + 1) t1 (acc @ out)"
  shows "for_range j hi body t = Some (s', outs) \<Longrightarrow> lo \<le> j \<Longrightarrow> I j t acc \<Longrightarrow> I (max j hi) s' (acc @ outs)"
proof (induction "nat (hi - j)" arbitrary: j t acc outs)
  case 0
  then show ?case by (simp add: for_range.simps max_def)
next
  case (Suc m)
  then have lt: "j < hi" by linarith
  from Suc.prems(1) lt obtain t1 out1 out2 where
    b: "body j t = Some (t1, out1)" and r: "for_range (j + 1) hi body t1 = Some (s', out2)"
    and o: "outs = out1 @ out2"
    by (subst (asm) for_range.simps) (auto simp: bind_eq_Some_conv)
  have i: "I (j + 1) t1 (acc @ out1)" using step[OF Suc.prems(2) lt Suc.prems(3) b] .
  have "m = nat (hi - (j + 1))" using Suc.hyps(2) by linarith
  from Suc.hyps(1)[OF this r _ i] Suc.prems(2)
  have "I (max (j + 1) hi) s' ((acc @ out1) @ out2)" by simp
  with lt o show ?case by (simp add: max_def)
qed

lemma for_range_partial:
  assumes "for_range lo hi body s = Some (s', outs)"
    and "I lo s []"
    and "\<And>j t acc t1 out. lo \<le> j \<Longrightarrow> j < hi \<Longrightarrow> I j t acc \<Longrightarrow> body j t = Some (t1, out) \<Longrightarrow> I (j + 1) t1 (acc @ out)"
  shows "I (max lo hi) s' outs"
  using for_range_inv_aux[of lo hi I body lo s s' outs "[]"] assms by simp

lemma for_range_total_aux:
  assumes step: "\<And>j t acc. lo \<le> j \<Longrightarrow> j < hi \<Longrightarrow> I j t acc \<Longrightarrow> \<exists>t1 out. body j t = Some (t1, out) \<and> I (j + 1) t1 (acc @ out)"
  shows "lo \<le> j \<Longrightarrow> I j t acc \<Longrightarrow> \<exists>s' outs. for_range j hi body t = Some (s', outs) \<and> I (max j hi) s' (acc @ outs)"
proof (induction "nat (hi - j)" arbitrary: j t acc)
  case 0
  then show ?case by (simp add: for_range.simps max_def)
next
  case (Suc m)
  then have lt: "j < hi" by linarith
  from step[OF Suc.prems(1) lt Suc.prems(2)] obtain t1 out1 where
    b: "body j t = Some (t1, out1)" and i: "I (j + 1) t1 (acc @ out1)" by blast
  have "m = nat (hi - (j + 1))" using Suc.hyps(2) by linarith
  from Suc.hyps(1)[OF this _ i] Suc.prems(1)
  obtain s' out2 where r: "for_range (j + 1) hi body t1 = Some (s', out2)"
    and p: "I (max (j + 1) hi) s' ((acc @ out1) @ out2)" by auto
  have "for_range j hi body t = Some (s', out1 @ out2)"
    using lt b r by (subst for_range.simps) simp
  with p lt show ?case by (simp add: max_def)
qed

lemma for_range_total:
  assumes "I lo s []"
    and "\<And>j t acc. lo \<le> j \<Longrightarrow> j < hi \<Longrightarrow> I j t acc \<Longrightarrow> \<exists>t1 out. body j t = Some (t1, out) \<and> I (j + 1) t1 (acc @ out)"
  shows "\<exists>s' outs. for_range lo hi body s = Some (s', outs) \<and> I (max lo hi) s' outs"
  using for_range_total_aux[of lo hi I body lo s "[]"] assms by simp

section \<open>Bubble sort\<close>

text \<open>The body of the inner loop of \<^verbatim>\<open>bubble_sort\<close>; the loop state is \<open>(a, swapped)\<close>.\<close>

definition bubble_body ::
  "int \<Rightarrow> int \<Rightarrow> int \<Rightarrow> int list \<times> bool \<Rightarrow> ((int list \<times> bool) \<times> int snapshot list) option" where
  "bubble_body n i j st =
     (case st of (a, swapped) \<Rightarrow>
        do { let s1 = snap a [j, j + 1] (Some (py_range (n - i) n)) None;
             x \<leftarrow> py_get a j;
             y \<leftarrow> py_get a (j + 1);
             if x > y then
               do { a1 \<leftarrow> py_swap a j (j + 1);
                    Some ((a1, True), [s1, snap a1 [j, j + 1] (Some (py_range (n - i) n)) None]) }
             else Some ((a, swapped), [s1]) })"

text \<open>The outer loop \<^verbatim>\<open>for i in range(n)\<close> with its \<^verbatim>\<open>break\<close> after a pass without swap.\<close>

function bubble_outer :: "int \<Rightarrow> int \<Rightarrow> int list \<Rightarrow> (int list \<times> int snapshot list) option" where
  "bubble_outer n i a =
     (if i < n then
        do { ((a1, swapped), out1) \<leftarrow> for_range 0 (n - i - 1) (bubble_body n i) (a, False);
             if \<not> swapped then Some (a1, out1)
             else do { (a2, out2) \<leftarrow> bubble_outer n (i + 1) a1;
                       Some (a2, out1 @ out2) } }
      else Some (a, []))"
  by pat_completeness auto
termination
  by (relation "measure (\<lambda>(n, i, a). nat (n - i))") auto

declare bubble_outer.simps [simp del]

definition bubble_sort :: "int list \<Rightarrow> int snapshot list option" where
  "bubble_sort arr =
     (let a = arr; n = py_len a in
      if n = 0 then Some [snap a [] (Some []) None]
      else
        do { (a1, out) \<leftarrow> bubble_outer n 0 a;
             Some ([snap a [] (Some []) None] @ out @ [snap a1 [] (Some (py_range 0 n)) None]) })"

section \<open>Selection sort\<close>

text \<open>The scan for the minimum; the loop state is \<open>min_idx\<close>, the array is only read.\<close>

definition selection_scan ::
  "int list \<Rightarrow> int \<Rightarrow> int \<Rightarrow> int \<Rightarrow> (int \<times> int snapshot list) option" where
  "selection_scan a i j min_idx =
     do { let s1 = snap a [min_idx, j] (Some (py_range 0 i)) None;
          x \<leftarrow> py_get a j;
          y \<leftarrow> py_get a min_idx;
          if x < y then Some (j, [s1, snap a [j] (Some (py_range 0 i)) None])
          else Some (min_idx, [s1]) }"

definition selection_body ::
  "int \<Rightarrow> int \<Rightarrow> int list \<Rightarrow> (int list \<times> int snapshot list) option" where
  "selection_body n i a =
     do { (min_idx, out1) \<leftarrow> for_range (i + 1) n (selection_scan a i) i;
          if i \<noteq> min_idx then
            do { a1 \<leftarrow> py_swap a i min_idx;
                 Some (a1, out1 @ [snap a1 [i, min_idx] (Some (py_range 0 (i + 1))) None]) }
          else Some (a, out1) }"

definition selection_sort :: "int list \<Rightarrow> int snapshot list option" where
  "selection_sort arr =
     (let a = arr; n = py_len a in
      do { (a1, out) \<leftarrow> for_range 0 n (selection_body n) a;
           Some ([snap a [] (Some []) None] @ out @ [snap a1 [] (Some (py_range 0 n)) None]) })"

section \<open>Insertion sort\<close>

text \<open>
  The \<^verbatim>\<open>while j >= 0 and a[j] > key\<close> loop. The conjunction is short-circuit: \<^verbatim>\<open>a[j]\<close> is
  read only when \<open>j \<ge> 0\<close>. The loop state is \<open>(a, j)\<close>.
\<close>

function insertion_shift ::
  "int \<Rightarrow> int \<Rightarrow> int \<Rightarrow> int \<Rightarrow> int list \<Rightarrow> ((int list \<times> int) \<times> int snapshot list) option" where
  "insertion_shift n i key j a =
     (if j \<ge> 0 then
        do { x \<leftarrow> py_get a j;
             if x > key then
               do { let s1 = snap a [j, j + 1] (Some (py_range (i + 1) n)) None;
                    y \<leftarrow> py_get a j;
                    a1 \<leftarrow> py_set a (j + 1) y;
                    let j1 = j - 1;
                    let s2 = snap a1 [j1 + 1] (Some (py_range (i + 1) n)) None;
                    (st, out) \<leftarrow> insertion_shift n i key j1 a1;
                    Some (st, s1 # s2 # out) }
             else Some ((a, j), []) }
      else Some ((a, j), []))"
  by pat_completeness auto
termination
  by (relation "measure (\<lambda>(n, i, key, j, a). nat (j + 1))") auto

declare insertion_shift.simps [simp del]

definition insertion_body ::
  "int \<Rightarrow> int \<Rightarrow> int list \<Rightarrow> (int list \<times> int snapshot list) option" where
  "insertion_body n i a =
     do { key \<leftarrow> py_get a i;
          ((a1, j), out1) \<leftarrow> insertion_shift n i key (i - 1) a;
          a2 \<leftarrow> py_set a1 (j + 1) key;
          Some (a2, out1 @ [snap a2 [j + 1] (Some (py_range (i + 1) n)) None]) }"

definition insertion_sort :: "int list \<Rightarrow> int snapshot list option" where
  "insertion_sort arr =
     (let a = arr; n = py_len a in
      do { (a1, out) \<leftarrow> for_range 1 n (insertion_body n) a;
           Some ([snap a [] (Some []) None] @ out @ [snap a1 [] (Some (py_range 0 n)) None]) })"

section \<open>Merge sort\<close>

text \<open>
  The source compares two elements with \<^verbatim>\<open>L[i] <= R[j]\<close>. For plain numbers that is the
  order of \<^typ>\<open>int\<close>; for the tagged duplicates of the stability test two different
  elements can compare equal. The comparison therefore goes through a key \<open>f\<close>:
  \<^verbatim>\<open>x <= y\<close> is \<open>f x \<le> f y\<close>. \<open>merge_sort\<close> below is the instance for numbers, where the
  key is the number itself.
\<close>

definition merge_label :: "int \<Rightarrow> int \<Rightarrow> int \<Rightarrow> string" where
  "merge_label left mid right =
     ''merging '' @ str_int left @ '':'' @ str_int mid @ '' + '' @ str_int mid @ '':'' @ str_int right"

text \<open>The first loop of \<^verbatim>\<open>merge\<close>: \<^verbatim>\<open>while i < len(L) and j < len(R)\<close>, state \<open>(i, j, k, a)\<close>.\<close>

function merge_both ::
  "('a \<Rightarrow> 'k::linorder) \<Rightarrow> 'a list \<Rightarrow> 'a list \<Rightarrow> string \<Rightarrow> int \<Rightarrow> int \<Rightarrow> int \<Rightarrow> 'a list \<Rightarrow>
   ((int \<times> int \<times> int \<times> 'a list) \<times> 'a snapshot list) option" where
  "merge_both f L R lbl i j k a =
     (if i < py_len L \<and> j < py_len R then
        do { let s1 = snap a [k] None (Some lbl);
             x \<leftarrow> py_get L i;
             y \<leftarrow> py_get R j;
             (i1, j1, a1) \<leftarrow>
               (if f x \<le> f y then do { a' \<leftarrow> py_set a k x; Some (i + 1, j, a') }
                else do { a' \<leftarrow> py_set a k y; Some (i, j + 1, a') });
             let k1 = k + 1;
             let s2 = snap a1 [k1 - 1] None (Some ''after write'');
             (st, out) \<leftarrow> merge_both f L R lbl i1 j1 k1 a1;
             Some (st, s1 # s2 # out) }
      else Some ((i, j, k, a), []))"
  by pat_completeness auto
termination
  by (relation "measure (\<lambda>(f, L, R, lbl, i, j, k, a). nat (py_len L - i) + nat (py_len R - j))")
     (auto split: if_splits simp: bind_eq_Some_conv)

declare merge_both.simps [simp del]

text \<open>
  The two copy loops \<^verbatim>\<open>while i < len(L)\<close> and \<^verbatim>\<open>while j < len(R)\<close> are the same code on
  \<open>(L, i)\<close> and on \<open>(R, j)\<close>; the state is \<open>(i, k, a)\<close>. Their snapshots carry the key
  \<^verbatim>\<open>'active'\<close> only.
\<close>

function merge_rest ::
  "'a list \<Rightarrow> int \<Rightarrow> int \<Rightarrow> 'a list \<Rightarrow> ((int \<times> int \<times> 'a list) \<times> 'a snapshot list) option" where
  "merge_rest B i k a =
     (if i < py_len B then
        do { v \<leftarrow> py_get B i;
             a1 \<leftarrow> py_set a k v;
             let i1 = i + 1;
             let k1 = k + 1;
             (st, out) \<leftarrow> merge_rest B i1 k1 a1;
             Some (st, snap a1 [k1 - 1] None None # out) }
      else Some ((i, k, a), []))"
  by pat_completeness auto
termination
  by (relation "measure (\<lambda>(B, i, k, a). nat (py_len B - i))") auto

declare merge_rest.simps [simp del]

definition merge ::
  "('a \<Rightarrow> 'k::linorder) \<Rightarrow> int \<Rightarrow> int \<Rightarrow> int \<Rightarrow> 'a list \<Rightarrow> ('a list \<times> 'a snapshot list) option" where
  "merge f left mid right a =
     (let L = py_slice a left mid; R = py_slice a mid right in
      do { ((i, j, k, a1), out1) \<leftarrow> merge_both f L R (merge_label left mid right) 0 0 left a;
           ((i2, k2, a2), out2) \<leftarrow> merge_rest L i k a1;
           ((j3, k3, a3), out3) \<leftarrow> merge_rest R j k2 a2;
           Some (a3, out1 @ out2 @ out3) })"

function sort_rec ::
  "('a \<Rightarrow> 'k::linorder) \<Rightarrow> int \<Rightarrow> int \<Rightarrow> 'a list \<Rightarrow> ('a list \<times> 'a snapshot list) option" where
  "sort_rec f left right a =
     (if right - left \<le> 1 then Some (a, [])
      else
        do { let mid = (left + right) div 2;
             (a1, out1) \<leftarrow> sort_rec f left mid a;
             (a2, out2) \<leftarrow> sort_rec f mid right a1;
             (a3, out3) \<leftarrow> merge f left mid right a2;
             Some (a3, out1 @ out2 @ out3) })"
  by pat_completeness auto
termination
  by (relation "measure (\<lambda>(f, left, right, a). nat (right - left))") auto

declare sort_rec.simps [simp del]

definition merge_sort_key :: "('a \<Rightarrow> 'k::linorder) \<Rightarrow> 'a list \<Rightarrow> 'a snapshot list option" where
  "merge_sort_key f arr =
     (let a = arr; n = py_len a in
      if n = 0 then Some [snap a [] (Some []) None]
      else
        do { (a1, out) \<leftarrow> sort_rec f 0 n a;
             Some ([snap a [] (Some []) None] @ out @ [snap a1 [] (Some (py_range 0 n)) None]) })"

definition merge_sort :: "int list \<Rightarrow> int snapshot list option" where
  "merge_sort arr = merge_sort_key (\<lambda>x. x) arr"

section \<open>Quick sort\<close>

text \<open>
  Only the iterative path of \<^verbatim>\<open>quick_sort\<close> runs; the nested \<^verbatim>\<open>partition\<close> and
  \<^verbatim>\<open>quick_rec\<close> are never called. The body of the scan \<^verbatim>\<open>for j in range(low, high)\<close> has
  the state \<open>(a, i)\<close>.
\<close>

definition quick_scan ::
  "int \<Rightarrow> int \<Rightarrow> int \<Rightarrow> int list \<times> int \<Rightarrow> ((int list \<times> int) \<times> int snapshot list) option" where
  "quick_scan pivot high j st =
     (case st of (a, i) \<Rightarrow>
        do { let s1 = snap a [j, high] None (Some ''compare to pivot'');
             x \<leftarrow> py_get a j;
             if x < pivot then
               do { a1 \<leftarrow> py_swap a i j;
                    Some ((a1, i + 1), [s1, snap a1 [i, j] None (Some ''swap smaller'')]) }
             else Some ((a, i), [s1]) })"

text \<open>One partition: the part of the \<^verbatim>\<open>while stack\<close> body from \<^verbatim>\<open>pivot = a[high]\<close> to the
  \<^verbatim>\<open>'pivot placed'\<close> snapshot.\<close>

definition partition_step ::
  "int \<Rightarrow> int \<Rightarrow> int list \<Rightarrow> ((int list \<times> int) \<times> int snapshot list) option" where
  "partition_step low high a =
     do { pivot \<leftarrow> py_get a high;
          ((a1, i), out1) \<leftarrow> for_range low high (quick_scan pivot high) (a, low);
          a2 \<leftarrow> py_swap a1 i high;
          Some ((a2, i), out1 @ [snap a2 [i, high] None (Some ''pivot placed'')]) }"

text \<open>The boundary \<open>i\<close> starts at \<open>low\<close> and grows by at most one per scanned index.\<close>

lemma partition_step_bounds:
  assumes "partition_step low high a = Some ((a2, i), out)"
  shows "low \<le> i \<and> i \<le> max low high"
proof -
  from assms obtain pivot a1 out1 where
    r: "for_range low high (quick_scan pivot high) (a, low) = Some ((a1, i), out1)"
    by (auto simp: partition_step_def bind_eq_Some_conv)
  have "(\<lambda>j st (acc::int snapshot list). low \<le> snd st \<and> snd st \<le> j) (max low high) (a1, i) out1"
    by (rule for_range_partial[OF r]) (auto simp: quick_scan_def Let_def bind_eq_Some_conv split: if_splits)
  then show ?thesis by simp
qed

text \<open>The size of a pending range, for the termination of the stack loop.\<close>

definition range_weight :: "int \<times> int \<Rightarrow> nat" where
  "range_weight r = (case r of (low, high) \<Rightarrow> 2 * nat (high - low + 1) + 1)"

text \<open>
  The loop \<^verbatim>\<open>while stack\<close>. The Python list \<^verbatim>\<open>stack\<close> is used from its end:
  \<^verbatim>\<open>stack.pop()\<close> takes the last element, \<^verbatim>\<open>stack.append\<close> adds after it.
\<close>

function quick_loop :: "(int \<times> int) list \<Rightarrow> int list \<Rightarrow> (int list \<times> int snapshot list) option" where
  "quick_loop stack a =
     (if stack = [] then Some (a, [])
      else
        case last stack of (low, high) \<Rightarrow>
          let stack1 = butlast stack in
          if low \<ge> high then quick_loop stack1 a
          else
            do { ((a1, i), out1) \<leftarrow> partition_step low high a;
                 (a2, out2) \<leftarrow> quick_loop (stack1 @ [(low, i - 1), (i + 1, high)]) a1;
                 Some (a2, out1 @ out2) })"
  by pat_completeness auto
termination
proof (relation "measure (\<lambda>(stack, a). sum_list (map range_weight stack))", goal_cases)
  case 1
  show ?case by simp
next
  case (2 stack a low high stack1)
  then have "stack = stack1 @ [(low, high)]" by (metis append_butlast_last_id)
  then show ?case by (simp add: range_weight_def)
next
  case (3 stack a low high stack1 r st out a1 i)
  then have s: "stack = stack1 @ [(low, high)]" by (metis append_butlast_last_id)
  from 3 have "partition_step low high a = Some ((a1, i), out)" by simp
  from partition_step_bounds[OF this] 3 have b: "low \<le> i \<and> i \<le> high" by (simp add: max_def)
  then have "Suc (2 * nat (i - low) + 2 * nat (high - i)) < 2 * nat (high - low + 1)" by linarith
  with s show ?case by (simp add: range_weight_def)
qed

declare quick_loop.simps [simp del]

definition quick_sort :: "int list \<Rightarrow> int snapshot list option" where
  "quick_sort arr =
     (let a = arr; n = py_len a in
      if n = 0 then Some [snap a [] (Some []) None]
      else
        do { (a1, out) \<leftarrow> quick_loop [(0, n - 1)] a;
             Some ([snap a [] (Some []) None] @ out @ [snap a1 [] (Some (py_range 0 n)) None]) })"

section \<open>List objects\<close>

text \<open>
  A Python list is an object: \<^verbatim>\<open>a = arr\<close> would make \<open>a\<close> another name of the caller's
  list, \<^verbatim>\<open>a = arr.copy()\<close> makes a new list. To tell the two apart the lists live in a heap
  and a variable holds a reference, the position of its list in the heap. A new list is
  put at the end of the heap. Reads and writes of elements go through the reference.
\<close>

type_synonym ref = nat

type_synonym heap = "int list list"

text \<open>\<^verbatim>\<open>r.copy()\<close>: the heap with the new list, and the reference to it.\<close>

definition list_copy :: "heap \<Rightarrow> ref \<Rightarrow> heap \<times> ref" where
  "list_copy h r = (h @ [h ! r], length h)"

definition h_len :: "heap \<Rightarrow> ref \<Rightarrow> int" where
  "h_len h r = py_len (h ! r)"

definition h_get :: "heap \<Rightarrow> ref \<Rightarrow> int \<Rightarrow> int option" where
  "h_get h r i = py_get (h ! r) i"

definition h_set :: "heap \<Rightarrow> ref \<Rightarrow> int \<Rightarrow> int \<Rightarrow> heap option" where
  "h_set h r i v = (case py_set (h ! r) i v of None \<Rightarrow> None | Some x \<Rightarrow> Some (h[r := x]))"

text \<open>\<^verbatim>\<open>r[i], r[j] = r[j], r[i]\<close>.\<close>

definition h_swap :: "heap \<Rightarrow> ref \<Rightarrow> int \<Rightarrow> int \<Rightarrow> heap option" where
  "h_swap h r i j =
     do { x \<leftarrow> h_get h r j;
          y \<leftarrow> h_get h r i;
          h1 \<leftarrow> h_set h r i x;
          h_set h1 r j y }"

text \<open>
  A yielded \<^verbatim>\<open>r.copy()\<close> and a slice \<^verbatim>\<open>r[lo:hi]\<close> are new lists that the generator never
  writes; they are the values the list \<open>r\<close> holds at that moment.
\<close>

definition h_snap :: "heap \<Rightarrow> ref \<Rightarrow> int list \<Rightarrow> int list option \<Rightarrow> string option \<Rightarrow> int snapshot" where
  "h_snap h r act srt lbl = snap (h ! r) act srt lbl"

definition h_slice :: "heap \<Rightarrow> ref \<Rightarrow> int \<Rightarrow> int \<Rightarrow> int list" where
  "h_slice h r lo hi = py_slice (h ! r) lo hi"

section \<open>The generators on list objects\<close>

text \<open>
  The five generators once more, line by line, with \<open>arr\<close> and \<open>a\<close> as references into the
  heap. The result is the heap after the last snapshot together with the snapshots. On the
  empty input \<^verbatim>\<open>bubble_sort\<close>, \<^verbatim>\<open>merge_sort\<close> and \<^verbatim>\<open>quick_sort\<close> yield \<open>a\<close> itself, not
  a copy of it; the snapshot holds the value of \<open>a\<close> and the generator returns right after.
\<close>

subsection \<open>Bubble sort\<close>

definition bubble_body_h ::
  "ref \<Rightarrow> int \<Rightarrow> int \<Rightarrow> int \<Rightarrow> heap \<times> bool \<Rightarrow> ((heap \<times> bool) \<times> int snapshot list) option" where
  "bubble_body_h a n i j st =
     (case st of (h, swapped) \<Rightarrow>
        do { let s1 = h_snap h a [j, j + 1] (Some (py_range (n - i) n)) None;
             x \<leftarrow> h_get h a j;
             y \<leftarrow> h_get h a (j + 1);
             if x > y then
               do { h1 \<leftarrow> h_swap h a j (j + 1);
                    Some ((h1, True), [s1, h_snap h1 a [j, j + 1] (Some (py_range (n - i) n)) None]) }
             else Some ((h, swapped), [s1]) })"

function bubble_outer_h :: "ref \<Rightarrow> int \<Rightarrow> int \<Rightarrow> heap \<Rightarrow> (heap \<times> int snapshot list) option" where
  "bubble_outer_h a n i h =
     (if i < n then
        do { ((h1, swapped), out1) \<leftarrow> for_range 0 (n - i - 1) (bubble_body_h a n i) (h, False);
             if \<not> swapped then Some (h1, out1)
             else do { (h2, out2) \<leftarrow> bubble_outer_h a n (i + 1) h1;
                       Some (h2, out1 @ out2) } }
      else Some (h, []))"
  by pat_completeness auto
termination
  by (relation "measure (\<lambda>(a, n, i, h). nat (n - i))") auto

declare bubble_outer_h.simps [simp del]

definition bubble_sort_h :: "heap \<Rightarrow> ref \<Rightarrow> (heap \<times> int snapshot list) option" where
  "bubble_sort_h h arr =
     (case list_copy h arr of (h0, a) \<Rightarrow>
        let n = h_len h0 a in
        if n = 0 then Some (h0, [h_snap h0 a [] (Some []) None])
        else
          do { (h1, out) \<leftarrow> bubble_outer_h a n 0 h0;
               Some (h1, [h_snap h0 a [] (Some []) None] @ out @
                         [h_snap h1 a [] (Some (py_range 0 n)) None]) })"

subsection \<open>Selection sort\<close>

definition selection_scan_h ::
  "heap \<Rightarrow> ref \<Rightarrow> int \<Rightarrow> int \<Rightarrow> int \<Rightarrow> (int \<times> int snapshot list) option" where
  "selection_scan_h h a i j min_idx =
     do { let s1 = h_snap h a [min_idx, j] (Some (py_range 0 i)) None;
          x \<leftarrow> h_get h a j;
          y \<leftarrow> h_get h a min_idx;
          if x < y then Some (j, [s1, h_snap h a [j] (Some (py_range 0 i)) None])
          else Some (min_idx, [s1]) }"

definition selection_body_h ::
  "ref \<Rightarrow> int \<Rightarrow> int \<Rightarrow> heap \<Rightarrow> (heap \<times> int snapshot list) option" where
  "selection_body_h a n i h =
     do { (min_idx, out1) \<leftarrow> for_range (i + 1) n (selection_scan_h h a i) i;
          if i \<noteq> min_idx then
            do { h1 \<leftarrow> h_swap h a i min_idx;
                 Some (h1, out1 @ [h_snap h1 a [i, min_idx] (Some (py_range 0 (i + 1))) None]) }
          else Some (h, out1) }"

definition selection_sort_h :: "heap \<Rightarrow> ref \<Rightarrow> (heap \<times> int snapshot list) option" where
  "selection_sort_h h arr =
     (case list_copy h arr of (h0, a) \<Rightarrow>
        let n = h_len h0 a in
        do { (h1, out) \<leftarrow> for_range 0 n (selection_body_h a n) h0;
             Some (h1, [h_snap h0 a [] (Some []) None] @ out @
                       [h_snap h1 a [] (Some (py_range 0 n)) None]) })"

subsection \<open>Insertion sort\<close>

function insertion_shift_h ::
  "ref \<Rightarrow> int \<Rightarrow> int \<Rightarrow> int \<Rightarrow> int \<Rightarrow> heap \<Rightarrow> ((heap \<times> int) \<times> int snapshot list) option" where
  "insertion_shift_h a n i key j h =
     (if j \<ge> 0 then
        do { x \<leftarrow> h_get h a j;
             if x > key then
               do { let s1 = h_snap h a [j, j + 1] (Some (py_range (i + 1) n)) None;
                    y \<leftarrow> h_get h a j;
                    h1 \<leftarrow> h_set h a (j + 1) y;
                    let j1 = j - 1;
                    let s2 = h_snap h1 a [j1 + 1] (Some (py_range (i + 1) n)) None;
                    (st, out) \<leftarrow> insertion_shift_h a n i key j1 h1;
                    Some (st, s1 # s2 # out) }
             else Some ((h, j), []) }
      else Some ((h, j), []))"
  by pat_completeness auto
termination
  by (relation "measure (\<lambda>(a, n, i, key, j, h). nat (j + 1))") auto

declare insertion_shift_h.simps [simp del]

definition insertion_body_h ::
  "ref \<Rightarrow> int \<Rightarrow> int \<Rightarrow> heap \<Rightarrow> (heap \<times> int snapshot list) option" where
  "insertion_body_h a n i h =
     do { key \<leftarrow> h_get h a i;
          ((h1, j), out1) \<leftarrow> insertion_shift_h a n i key (i - 1) h;
          h2 \<leftarrow> h_set h1 a (j + 1) key;
          Some (h2, out1 @ [h_snap h2 a [j + 1] (Some (py_range (i + 1) n)) None]) }"

definition insertion_sort_h :: "heap \<Rightarrow> ref \<Rightarrow> (heap \<times> int snapshot list) option" where
  "insertion_sort_h h arr =
     (case list_copy h arr of (h0, a) \<Rightarrow>
        let n = h_len h0 a in
        do { (h1, out) \<leftarrow> for_range 1 n (insertion_body_h a n) h0;
             Some (h1, [h_snap h0 a [] (Some []) None] @ out @
                       [h_snap h1 a [] (Some (py_range 0 n)) None]) })"

subsection \<open>Merge sort\<close>

function merge_both_h ::
  "ref \<Rightarrow> int list \<Rightarrow> int list \<Rightarrow> string \<Rightarrow> int \<Rightarrow> int \<Rightarrow> int \<Rightarrow> heap \<Rightarrow>
   ((int \<times> int \<times> int \<times> heap) \<times> int snapshot list) option" where
  "merge_both_h a L R lbl i j k h =
     (if i < py_len L \<and> j < py_len R then
        do { let s1 = h_snap h a [k] None (Some lbl);
             x \<leftarrow> py_get L i;
             y \<leftarrow> py_get R j;
             (i1, j1, h1) \<leftarrow>
               (if x \<le> y then do { h' \<leftarrow> h_set h a k x; Some (i + 1, j, h') }
                else do { h' \<leftarrow> h_set h a k y; Some (i, j + 1, h') });
             let k1 = k + 1;
             let s2 = h_snap h1 a [k1 - 1] None (Some ''after write'');
             (st, out) \<leftarrow> merge_both_h a L R lbl i1 j1 k1 h1;
             Some (st, s1 # s2 # out) }
      else Some ((i, j, k, h), []))"
  by pat_completeness auto
termination
  by (relation "measure (\<lambda>(a, L, R, lbl, i, j, k, h). nat (py_len L - i) + nat (py_len R - j))")
     (auto split: if_splits simp: bind_eq_Some_conv)

declare merge_both_h.simps [simp del]

function merge_rest_h ::
  "ref \<Rightarrow> int list \<Rightarrow> int \<Rightarrow> int \<Rightarrow> heap \<Rightarrow> ((int \<times> int \<times> heap) \<times> int snapshot list) option" where
  "merge_rest_h a B i k h =
     (if i < py_len B then
        do { v \<leftarrow> py_get B i;
             h1 \<leftarrow> h_set h a k v;
             let i1 = i + 1;
             let k1 = k + 1;
             (st, out) \<leftarrow> merge_rest_h a B i1 k1 h1;
             Some (st, h_snap h1 a [k1 - 1] None None # out) }
      else Some ((i, k, h), []))"
  by pat_completeness auto
termination
  by (relation "measure (\<lambda>(a, B, i, k, h). nat (py_len B - i))") auto

declare merge_rest_h.simps [simp del]

definition merge_h ::
  "ref \<Rightarrow> int \<Rightarrow> int \<Rightarrow> int \<Rightarrow> heap \<Rightarrow> (heap \<times> int snapshot list) option" where
  "merge_h a left mid right h =
     (let L = h_slice h a left mid; R = h_slice h a mid right in
      do { ((i, j, k, h1), out1) \<leftarrow> merge_both_h a L R (merge_label left mid right) 0 0 left h;
           ((i2, k2, h2), out2) \<leftarrow> merge_rest_h a L i k h1;
           ((j3, k3, h3), out3) \<leftarrow> merge_rest_h a R j k2 h2;
           Some (h3, out1 @ out2 @ out3) })"

function sort_rec_h ::
  "ref \<Rightarrow> int \<Rightarrow> int \<Rightarrow> heap \<Rightarrow> (heap \<times> int snapshot list) option" where
  "sort_rec_h a left right h =
     (if right - left \<le> 1 then Some (h, [])
      else
        do { let mid = (left + right) div 2;
             (h1, out1) \<leftarrow> sort_rec_h a left mid h;
             (h2, out2) \<leftarrow> sort_rec_h a mid right h1;
             (h3, out3) \<leftarrow> merge_h a left mid right h2;
             Some (h3, out1 @ out2 @ out3) })"
  by pat_completeness auto
termination
  by (relation "measure (\<lambda>(a, left, right, h). nat (right - left))") auto

declare sort_rec_h.simps [simp del]

definition merge_sort_h :: "heap \<Rightarrow> ref \<Rightarrow> (heap \<times> int snapshot list) option" where
  "merge_sort_h h arr =
     (case list_copy h arr of (h0, a) \<Rightarrow>
        let n = h_len h0 a in
        if n = 0 then Some (h0, [h_snap h0 a [] (Some []) None])
        else
          do { (h1, out) \<leftarrow> sort_rec_h a 0 n h0;
               Some (h1, [h_snap h0 a [] (Some []) None] @ out @
                         [h_snap h1 a [] (Some (py_range 0 n)) None]) })"

subsection \<open>Quick sort\<close>

definition quick_scan_h ::
  "ref \<Rightarrow> int \<Rightarrow> int \<Rightarrow> int \<Rightarrow> heap \<times> int \<Rightarrow> ((heap \<times> int) \<times> int snapshot list) option" where
  "quick_scan_h a pivot high j st =
     (case st of (h, i) \<Rightarrow>
        do { let s1 = h_snap h a [j, high] None (Some ''compare to pivot'');
             x \<leftarrow> h_get h a j;
             if x < pivot then
               do { h1 \<leftarrow> h_swap h a i j;
                    Some ((h1, i + 1), [s1, h_snap h1 a [i, j] None (Some ''swap smaller'')]) }
             else Some ((h, i), [s1]) })"

definition partition_step_h ::
  "ref \<Rightarrow> int \<Rightarrow> int \<Rightarrow> heap \<Rightarrow> ((heap \<times> int) \<times> int snapshot list) option" where
  "partition_step_h a low high h =
     do { pivot \<leftarrow> h_get h a high;
          ((h1, i), out1) \<leftarrow> for_range low high (quick_scan_h a pivot high) (h, low);
          h2 \<leftarrow> h_swap h1 a i high;
          Some ((h2, i), out1 @ [h_snap h2 a [i, high] None (Some ''pivot placed'')]) }"

lemma partition_step_h_bounds:
  assumes "partition_step_h a low high h = Some ((h2, i), out)"
  shows "low \<le> i \<and> i \<le> max low high"
proof -
  from assms obtain pivot h1 out1 where
    r: "for_range low high (quick_scan_h a pivot high) (h, low) = Some ((h1, i), out1)"
    by (auto simp: partition_step_h_def bind_eq_Some_conv)
  have "(\<lambda>j st (acc::int snapshot list). low \<le> snd st \<and> snd st \<le> j) (max low high) (h1, i) out1"
    by (rule for_range_partial[OF r]) (auto simp: quick_scan_h_def Let_def bind_eq_Some_conv split: if_splits)
  then show ?thesis by simp
qed

function quick_loop_h :: "ref \<Rightarrow> (int \<times> int) list \<Rightarrow> heap \<Rightarrow> (heap \<times> int snapshot list) option" where
  "quick_loop_h a stack h =
     (if stack = [] then Some (h, [])
      else
        case last stack of (low, high) \<Rightarrow>
          let stack1 = butlast stack in
          if low \<ge> high then quick_loop_h a stack1 h
          else
            do { ((h1, i), out1) \<leftarrow> partition_step_h a low high h;
                 (h2, out2) \<leftarrow> quick_loop_h a (stack1 @ [(low, i - 1), (i + 1, high)]) h1;
                 Some (h2, out1 @ out2) })"
  by pat_completeness auto
termination
proof (relation "measure (\<lambda>(a, stack, h). sum_list (map range_weight stack))", goal_cases)
  case 1
  show ?case by simp
next
  case (2 a stack h low high stack1)
  then have "stack = stack1 @ [(low, high)]" by (metis append_butlast_last_id)
  then show ?case by (simp add: range_weight_def)
next
  case (3 a stack h low high stack1 r st out h1 i)
  then have s: "stack = stack1 @ [(low, high)]" by (metis append_butlast_last_id)
  from 3 have "partition_step_h a low high h = Some ((h1, i), out)" by simp
  from partition_step_h_bounds[OF this] 3 have b: "low \<le> i \<and> i \<le> high" by (simp add: max_def)
  then have "Suc (2 * nat (i - low) + 2 * nat (high - i)) < 2 * nat (high - low + 1)" by linarith
  with s show ?case by (simp add: range_weight_def)
qed

declare quick_loop_h.simps [simp del]

definition quick_sort_h :: "heap \<Rightarrow> ref \<Rightarrow> (heap \<times> int snapshot list) option" where
  "quick_sort_h h arr =
     (case list_copy h arr of (h0, a) \<Rightarrow>
        let n = h_len h0 a in
        if n = 0 then Some (h0, [h_snap h0 a [] (Some []) None])
        else
          do { (h1, out) \<leftarrow> quick_loop_h a [(0, n - 1)] h0;
               Some (h1, [h_snap h0 a [] (Some []) None] @ out @
                         [h_snap h1 a [] (Some (py_range 0 n)) None]) })"

section \<open>Index operations inside the list\<close>

text \<open>With an index inside the list no \<^verbatim>\<open>IndexError\<close> is raised and the operation is the one
  of HOL lists.\<close>

lemma py_get_in: "0 \<le> i \<Longrightarrow> i < int (length a) \<Longrightarrow> py_get a i = Some (a ! nat i)"
  by (simp add: py_get_def py_index_def py_len_def)

lemma py_set_in: "0 \<le> i \<Longrightarrow> i < int (length a) \<Longrightarrow> py_set a i v = Some (a[nat i := v])"
  by (simp add: py_set_def py_index_def py_len_def)

lemma py_swap_in:
  "0 \<le> i \<Longrightarrow> i < int (length a) \<Longrightarrow> 0 \<le> j \<Longrightarrow> j < int (length a) \<Longrightarrow>
   py_swap a i j = Some (a[nat i := a ! nat j, nat j := a ! nat i])"
  by (simp add: py_swap_def py_get_in py_set_in)

text \<open>The list after the exchange of the positions \<open>i\<close> and \<open>j\<close>.\<close>

definition swap_at :: "'a list \<Rightarrow> nat \<Rightarrow> nat \<Rightarrow> 'a list" where
  "swap_at a i j = a[i := a ! j, j := a ! i]"

lemma mset_swap_at: "i < length a \<Longrightarrow> j < length a \<Longrightarrow> mset (swap_at a i j) = mset a"
  unfolding swap_at_def by (simp add: mset_swap)

lemma length_swap_at [simp]: "length (swap_at a i j) = length a"
  by (simp add: swap_at_def)

lemma take_swap_at: "i < p \<Longrightarrow> j < p \<Longrightarrow> take p (swap_at a i j) = swap_at (take p a) i j"
  by (simp add: swap_at_def take_update_swap)

lemma drop_swap_at: "i < p \<Longrightarrow> j < p \<Longrightarrow> drop p (swap_at a i j) = drop p a"
  by (simp add: swap_at_def)

lemma nth_swap_at:
  "i < length a \<Longrightarrow> j < length a \<Longrightarrow> k < length a \<Longrightarrow>
   swap_at a i j ! k = (if k = j then a ! i else if k = i then a ! j else a ! k)"
  by (auto simp: swap_at_def nth_list_update)

text \<open>A frame whose array is a permutation of the input and whose active indices are indices
  of the input.\<close>

definition frame_perm :: "'a list \<Rightarrow> 'a snapshot \<Rightarrow> bool" where
  "frame_perm xs s = (mset (array s) = mset xs \<and> (\<forall>k \<in> set (active s). 0 \<le> k \<and> k < int (length xs)))"

lemma frame_perm_snap:
  "mset a = mset xs \<Longrightarrow> (\<forall>k \<in> set act. 0 \<le> k \<and> k < int (length xs)) \<Longrightarrow> frame_perm xs (snap a act srt lbl)"
  by (simp add: frame_perm_def snap_def)

section \<open>Bubble sort: correctness\<close>

lemma sorted_take_Suc:
  fixes b :: "int list"
  assumes "Suc J < length b" "sorted (take (Suc J) b)" "b ! J \<le> b ! Suc J"
  shows "sorted (take (Suc (Suc J)) b)"
proof -
  have t: "take (Suc (Suc J)) b = take (Suc J) b @ [b ! Suc J]"
    using assms(1) by (simp add: take_Suc_conv_app_nth)
  have "\<forall>x \<in> set (take (Suc J) b). x \<le> b ! Suc J"
  proof
    fix x assume "x \<in> set (take (Suc J) b)"
    then obtain k where k: "k < Suc J" "x = take (Suc J) b ! k"
      by (auto simp: in_set_conv_nth)
    then have "x \<le> take (Suc J) b ! J"
      using assms(1,2) by (auto simp: sorted_iff_nth_mono)
    with assms show "x \<le> b ! Suc J" by simp
  qed
  with assms(2) show ?thesis unfolding t by (simp add: sorted_append)
qed

lemma bubble_inner:
  assumes n: "n = int (length a)" and i: "0 \<le> i" "i < n" and p: "p = nat (n - i)"
  shows "\<exists>a' sw outs. for_range 0 (n - i - 1) (bubble_body n i) (a, False) = Some ((a', sw), outs)
     \<and> mset a' = mset a \<and> mset (take p a') = mset (take p a) \<and> drop p a' = drop p a
     \<and> (\<forall>k < p. a' ! k \<le> a' ! (p - 1))
     \<and> (\<not> sw \<longrightarrow> sorted (take p a'))
     \<and> (\<forall>s \<in> set outs. frame_perm a s)"
proof -
  define I where "I = (\<lambda>j (st :: int list \<times> bool) (acc :: int snapshot list).
     mset (fst st) = mset a \<and> mset (take p (fst st)) = mset (take p a) \<and> drop p (fst st) = drop p a
     \<and> (\<forall>k \<le> nat j. fst st ! k \<le> fst st ! nat j)
     \<and> (\<not> snd st \<longrightarrow> sorted (take (Suc (nat j)) (fst st)))
     \<and> (\<forall>s \<in> set acc. frame_perm a s))"
  have init: "I 0 (a, False) []"
    using n i by (cases a) (auto simp: I_def)
  have step: "\<exists>t1 out. bubble_body n i j t = Some (t1, out) \<and> I (j + 1) t1 (acc @ out)"
    if j: "0 \<le> j" "j < n - i - 1" and inv: "I j t acc" for j t acc
  proof -
    obtain b sw where t: "t = (b, sw)" by (cases t)
    define J where "J = nat j"
    have J: "nat j = J" "nat (j + 1) = Suc J" using j by (simp_all add: J_def)
    from inv have mb: "mset b = mset a" and mt: "mset (take p b) = mset (take p a)"
      and dr: "drop p b = drop p a" and mx: "\<forall>k \<le> J. b ! k \<le> b ! J"
      and so: "\<not> sw \<longrightarrow> sorted (take (Suc J) b)" and fr: "\<forall>s \<in> set acc. frame_perm a s"
      by (simp_all add: I_def t J_def)
    have lb: "length b = length a" using mb by (rule mset_eq_length)
    have Jp: "Suc J < p" using j i p n J by linarith
    have pl: "p \<le> length b" using p n i lb by linarith
    have bj: "0 \<le> j" "j < int (length b)" "0 \<le> j + 1" "j + 1 < int (length b)"
      using Jp pl J by simp_all
    have act: "\<forall>k \<in> set [j, j + 1]. 0 \<le> k \<and> k < int (length a)" using bj lb by simp
    have s1: "frame_perm a (snap b [j, j + 1] srt None)" for srt
      by (rule frame_perm_snap[OF mb act])
    show ?thesis
    proof (cases "b ! J > b ! Suc J")
      case True
      let ?b = "swap_at b J (Suc J)"
      have body: "bubble_body n i j t =
          Some ((?b, True), [snap b [j, j + 1] (Some (py_range (n - i) n)) None,
                              snap ?b [j, j + 1] (Some (py_range (n - i) n)) None])"
        using True bj by (simp add: bubble_body_def t py_get_in py_swap_in J swap_at_def Let_def)
      have m1: "mset ?b = mset a" using mb Jp pl by (simp add: mset_swap_at)
      have m2: "mset (take p ?b) = mset (take p a)"
        using mt Jp pl by (simp add: take_swap_at mset_swap_at)
      have m3: "drop p ?b = drop p a" using dr Jp by (simp add: drop_swap_at)
      have m4: "\<forall>k \<le> Suc J. ?b ! k \<le> ?b ! Suc J"
      proof (intro allI impI)
        fix k assume "k \<le> Suc J"
        then show "?b ! k \<le> ?b ! Suc J"
          using mx True Jp pl by (cases "k = Suc J"; cases "k = J") (auto simp: nth_swap_at)
      qed
      have s2: "frame_perm a (snap ?b [j, j + 1] srt None)" for srt
        by (rule frame_perm_snap[OF m1 act])
      have "I (j + 1) (?b, True) (acc @ [snap b [j, j + 1] (Some (py_range (n - i) n)) None,
                              snap ?b [j, j + 1] (Some (py_range (n - i) n)) None])"
        using m1 m2 m3 m4 fr s1 s2 by (simp add: I_def J)
      with body show ?thesis by blast
    next
      case False
      have body: "bubble_body n i j t = Some ((b, sw), [snap b [j, j + 1] (Some (py_range (n - i) n)) None])"
        using False bj by (simp add: bubble_body_def t py_get_in J Let_def)
      have m4: "\<forall>k \<le> Suc J. b ! k \<le> b ! Suc J"
      proof (intro allI impI)
        fix k assume "k \<le> Suc J"
        then show "b ! k \<le> b ! Suc J"
          using mx False by (cases "k = Suc J") (auto simp: le_Suc_eq intro: order_trans)
      qed
      have m5: "\<not> sw \<longrightarrow> sorted (take (Suc (Suc J)) b)"
        using so False Jp pl by (auto intro!: sorted_take_Suc)
      have "I (j + 1) (b, sw) (acc @ [snap b [j, j + 1] (Some (py_range (n - i) n)) None])"
        using mb mt dr m4 m5 fr s1 by (simp add: I_def J)
      with body show ?thesis by blast
    qed
  qed
  from for_range_total[of I 0 "(a, False)" "n - i - 1" "bubble_body n i", OF init step]
  obtain s' outs where r: "for_range 0 (n - i - 1) (bubble_body n i) (a, False) = Some (s', outs)"
    and f: "I (max 0 (n - i - 1)) s' outs" by blast
  obtain a' sw where s': "s' = (a', sw)" by (cases s')
  have mx: "max 0 (n - i - 1) = n - i - 1" using i by simp
  have pp: "nat (n - i - 1) = p - 1" "Suc (p - Suc 0) = p" "\<And>k. k < p \<longleftrightarrow> k \<le> p - Suc 0"
    using i p by auto
  from f have "mset a' = mset a \<and> mset (take p a') = mset (take p a) \<and> drop p a' = drop p a
     \<and> (\<forall>k < p. a' ! k \<le> a' ! (p - 1))
     \<and> (\<not> sw \<longrightarrow> sorted (take p a'))
     \<and> (\<forall>s \<in> set outs. frame_perm a s)"
    by (simp add: mx I_def s' pp)
  with r s' show ?thesis by blast
qed


lemma frame_perm_cong: "mset b = mset a \<Longrightarrow> frame_perm b s \<Longrightarrow> frame_perm a s"
  using mset_eq_length[of b a] by (simp add: frame_perm_def)

lemma suffix_extend:
  fixes c :: "int list"
  assumes p: "0 < p" "p \<le> length c" and so: "sorted (drop p c)"
    and le: "\<forall>x\<in>set (take p c). \<forall>y\<in>set (drop p c). x \<le> y"
    and mx: "\<forall>k<p. c ! k \<le> c ! (p - 1)"
  shows "sorted (drop (p - 1) c) \<and> (\<forall>x\<in>set (take (p - 1) c). \<forall>y\<in>set (drop (p - 1) c). x \<le> y)"
proof -
  have "p - 1 < length c" "Suc (p - 1) = p" using p by simp_all
  then have d: "drop (p - 1) c = c ! (p - 1) # drop p c"
    using Cons_nth_drop_Suc[of "p - 1" c] by simp
  have "c ! (p - 1) \<in> set (take p c)"
    using p by (auto simp: in_set_conv_nth intro!: exI[of _ "p - 1"])
  with le have h: "\<forall>y\<in>set (drop p c). c ! (p - 1) \<le> y" by blast
  have "\<forall>x\<in>set (take (p - 1) c). x \<le> c ! (p - 1) \<and> x \<in> set (take p c)"
  proof
    fix x assume "x \<in> set (take (p - 1) c)"
    then obtain k where k: "k < p - 1" "x = c ! k" using p by (auto simp: in_set_conv_nth)
    then have "x \<in> set (take p c)" using p by (auto simp: in_set_conv_nth intro!: exI[of _ k])
    with k mx show "x \<le> c ! (p - 1) \<and> x \<in> set (take p c)" by simp
  qed
  with so h le show ?thesis unfolding d by auto
qed

lemma bubble_outer_correct:
  assumes n: "n = int (length a)"
  shows "p = nat (n - i) \<Longrightarrow> 0 \<le> i \<Longrightarrow> i \<le> n \<Longrightarrow> mset b = mset a \<Longrightarrow> sorted (drop p b) \<Longrightarrow>
     (\<forall>x\<in>set (take p b). \<forall>y\<in>set (drop p b). x \<le> y) \<Longrightarrow>
     \<exists>b' outs. bubble_outer n i b = Some (b', outs) \<and> sorted b' \<and> mset b' = mset a \<and>
        (\<forall>s\<in>set outs. frame_perm a s)"
proof (induction p arbitrary: i b)
  case 0
  then have "i = n" by simp
  with 0 show ?case by (simp add: bubble_outer.simps)
next
  case (Suc m)
  define p where "p = Suc m"
  have p_def': "p = nat (n - i)" using Suc.prems(1) by (simp add: p_def)
  have lt: "i < n" using Suc.prems(1) by linarith
  have i0: "0 \<le> i" by fact
  have mb: "mset b = mset a" by fact
  have sd0: "sorted (drop p b)" using Suc.prems(5) by (simp add: p_def)
  have le0: "\<forall>x\<in>set (take p b). \<forall>y\<in>set (drop p b). x \<le> y" using Suc.prems(6) by (simp add: p_def)
  have lb: "length b = length a" using mb by (rule mset_eq_length)
  have nb: "n = int (length b)" using n lb by simp
  from bubble_inner[OF nb i0 lt p_def']
  obtain a' sw out1 where r: "for_range 0 (n - i - 1) (bubble_body n i) (b, False) = Some ((a', sw), out1)"
    and ma: "mset a' = mset b" and mt: "mset (take p a') = mset (take p b)"
    and dr: "drop p a' = drop p b" and mx: "\<forall>k < p. a' ! k \<le> a' ! (p - 1)"
    and so: "\<not> sw \<longrightarrow> sorted (take p a')" and fr: "\<forall>s \<in> set out1. frame_perm b s"
    by blast
  have fr': "\<forall>s \<in> set out1. frame_perm a s"
    using fr frame_perm_cong[OF mb] by blast
  have st: "set (take p a') = set (take p b)" using mt by (rule mset_eq_setD)
  have le: "\<forall>x\<in>set (take p a'). \<forall>y\<in>set (drop p a'). x \<le> y"
    using le0 st dr by simp
  have sd: "sorted (drop p a')" using sd0 dr by simp
  have ma': "mset a' = mset a" using ma mb by simp
  show ?case
  proof (cases sw)
    case False
    have "sorted (take p a' @ drop p a')"
      unfolding sorted_append using so False sd le by blast
    then have sa: "sorted a'" by simp
    have "bubble_outer n i b = Some (a', out1)"
      using lt r False by (subst bubble_outer.simps) simp
    then show ?thesis using sa ma' fr' by simp
  next
    case True
    have la: "length a' = length a" using ma' by (rule mset_eq_length)
    have pp: "0 < p" "p \<le> length a'" using lt n la i0 by (simp_all add: p_def')
    have p1: "p - 1 = m" by (simp add: p_def)
    from suffix_extend[OF pp sd le mx]
    have inv: "sorted (drop m a')"
      "\<forall>x\<in>set (take m a'). \<forall>y\<in>set (drop m a'). x \<le> y"
      unfolding p1 by simp_all
    have m: "m = nat (n - (i + 1))" using Suc.prems(1) by linarith
    have i1: "0 \<le> i + 1" "i + 1 \<le> n" using i0 lt by simp_all
    from Suc.IH[OF m i1 ma' inv]
    obtain b' out2 where r2: "bubble_outer n (i + 1) a' = Some (b', out2)"
      and res: "sorted b'" "mset b' = mset a" "\<forall>s\<in>set out2. frame_perm a s" by blast
    have "bubble_outer n i b = Some (b', out1 @ out2)"
      using lt r True r2 by (subst bubble_outer.simps) simp
    then show ?thesis using res fr' by auto
  qed
qed

text \<open>What a complete run looks like: the before-frame, the frames of the work, the final frame.\<close>

definition run_shape :: "'a list \<Rightarrow> 'a list \<Rightarrow> 'a snapshot list \<Rightarrow> bool" where
  "run_shape xs a' snaps =
     (snaps \<noteq> [] \<and> hd snaps = snap xs [] (Some []) None \<and>
      last snaps = snap a' [] (Some (py_range 0 (py_len xs))) None)"

lemma frame_perm_first: "frame_perm xs (snap xs [] srt lbl)"
  by (simp add: frame_perm_def snap_def)

lemma frame_perm_last: "mset a' = mset xs \<Longrightarrow> frame_perm xs (snap a' [] srt lbl)"
  by (simp add: frame_perm_def snap_def)

lemma run_shape_single: "run_shape [] [] [snap [] [] (Some []) None]"
  by (simp add: run_shape_def py_len_def py_range_def)

lemma run_shape_full:
  "n = int (length xs) \<Longrightarrow>
   run_shape xs a' ([snap xs [] (Some []) None] @ outs @ [snap a' [] (Some (py_range 0 n)) None])"
  by (simp add: run_shape_def py_len_def)

lemma bubble_sort_run:
  "\<exists>a' snaps. bubble_sort xs = Some snaps \<and> run_shape xs a' snaps \<and> sorted a' \<and> mset a' = mset xs \<and>
     (\<forall>s\<in>set snaps. frame_perm xs s)"
proof (cases "xs = []")
  case True
  have 1: "bubble_sort xs = Some [snap [] [] (Some []) None]"
    using True by (simp add: bubble_sort_def py_len_def)
  have 2: "\<forall>s\<in>set [snap [] [] (Some []) None]. frame_perm xs s"
    using True frame_perm_first[of "[]"] by simp
  show ?thesis
    apply (rule exI[of _ "[]"], rule exI[of _ "[snap [] [] (Some []) None]"])
    using 1 2 True run_shape_single by simp
next
  case False
  define n where "n = int (length xs)"
  have "\<exists>b' outs. bubble_outer n 0 xs = Some (b', outs) \<and> sorted b' \<and> mset b' = mset xs \<and>
        (\<forall>s\<in>set outs. frame_perm xs s)"
    by (rule bubble_outer_correct[where p="nat n"]) (simp_all add: n_def)
  then obtain b' outs where r: "bubble_outer n 0 xs = Some (b', outs)"
    and res: "sorted b'" "mset b' = mset xs" "\<forall>s\<in>set outs. frame_perm xs s" by blast
  define snaps where "snaps = [snap xs [] (Some []) None] @ outs @ [snap b' [] (Some (py_range 0 n)) None]"
  have 1: "bubble_sort xs = Some snaps"
    using False r by (simp add: bubble_sort_def py_len_def n_def[symmetric] snaps_def)
  have 2: "run_shape xs b' snaps" unfolding snaps_def by (rule run_shape_full[OF n_def])
  have 3: "\<forall>s\<in>set snaps. frame_perm xs s"
    using res(3) frame_perm_first[of xs] frame_perm_last[OF res(2)] by (simp add: snaps_def)
  show ?thesis
    apply (rule exI[of _ b'], rule exI[of _ snaps])
    using 1 2 3 res by simp
qed

section \<open>Bubble sort on a sorted input\<close>

lemma bubble_inner_sorted:
  assumes so: "sorted a" and n: "n = int (length a)"
  shows "for_range 0 (n - 1) (bubble_body n 0) (a, False) =
           Some ((a, False), map (\<lambda>j. snap a [j, j + 1] (Some (py_range n n)) None) [0..n - 2])"
proof -
  define f where "f = (\<lambda>j. snap a [j, j + 1] (Some (py_range n n)) None)"
  define I where "I = (\<lambda>j (st :: int list \<times> bool) (acc :: int snapshot list).
     st = (a, False) \<and> acc = map f [0..j - 1])"
  have init: "I 0 (a, False) []" by (simp add: I_def)
  have step: "\<exists>t1 out. bubble_body n 0 j t = Some (t1, out) \<and> I (j + 1) t1 (acc @ out)"
    if j: "0 \<le> j" "j < n - 1" and inv: "I j t acc" for j t acc
  proof -
    have t: "t = (a, False)" and acc: "acc = map f [0..j - 1]" using inv by (simp_all add: I_def)
    have bj: "0 \<le> j" "j < int (length a)" "0 \<le> j + 1" "j + 1 < int (length a)"
      using j n by simp_all
    have "nat j \<le> nat (j + 1)" "nat (j + 1) < length a" using bj by simp_all
    then have le: "a ! nat j \<le> a ! nat (j + 1)" using so by (simp add: sorted_iff_nth_mono)
    have body: "bubble_body n 0 j t = Some ((a, False), [f j])"
      using le bj by (simp add: bubble_body_def t py_get_in Let_def f_def)
    have "[0..j] = [0..j - 1] @ [j]" using j by (simp add: upto_rec2)
    then have "I (j + 1) (a, False) (acc @ [f j])" by (simp add: I_def acc)
    with body show ?thesis by blast
  qed
  from for_range_total[of I 0 "(a, False)" "n - 1" "bubble_body n 0", OF init step]
  obtain s' outs where r: "for_range 0 (n - 1) (bubble_body n 0) (a, False) = Some (s', outs)"
    and f: "I (max 0 (n - 1)) s' outs" by blast
  show ?thesis
  proof (cases "0 \<le> n - 1")
    case True
    then have "max 0 (n - 1) = n - 1" by simp
    with f r show ?thesis by (simp add: I_def f_def)
  next
    case False
    then have "[0..n - 2] = []" by simp
    moreover from False have "max 0 (n - 1) = 0" by simp
    ultimately show ?thesis using f r by (simp add: I_def)
  qed
qed

text \<open>The frames of \<^verbatim>\<open>bubble_sort\<close> on a sorted list: the before-frame, one comparison
  frame for each adjacent pair, all of the first pass (no index is marked sorted yet), and
  the final frame.\<close>

definition sorted_run :: "int list \<Rightarrow> int snapshot list" where
  "sorted_run xs =
     snap xs [] (Some []) None #
     map (\<lambda>j. snap xs [j, j + 1] (Some []) None) [0..py_len xs - 2] @
     [snap xs [] (Some (py_range 0 (py_len xs))) None]"

section \<open>Selection sort: correctness\<close>

text \<open>The first \<open>p\<close> positions are in order and hold nothing larger than what follows them.\<close>

definition prefix_done :: "nat \<Rightarrow> int list \<Rightarrow> bool" where
  "prefix_done p a = (\<forall>k1 k2. k1 < p \<longrightarrow> k1 < k2 \<longrightarrow> k2 < length a \<longrightarrow> a ! k1 \<le> a ! k2)"

lemma prefix_done_sorted: "length a \<le> p \<Longrightarrow> prefix_done p a \<Longrightarrow> sorted a"
  by (auto simp: prefix_done_def sorted_iff_nth_mono_less)

lemma prefix_done_swap:
  assumes pd: "prefix_done p a" and m: "p \<le> m" "m < length a"
    and mn: "\<forall>k. p \<le> k \<and> k < length a \<longrightarrow> a ! m \<le> a ! k"
  shows "prefix_done (Suc p) (swap_at a p m)"
  unfolding prefix_done_def
proof (intro allI impI)
  fix k1 k2 assume k: "k1 < Suc p" "k1 < k2" "k2 < length (swap_at a p m)"
  have pl: "p < length a" using m by simp
  have k2: "k2 < length a" using k(3) by simp
  show "swap_at a p m ! k1 \<le> swap_at a p m ! k2"
  proof (cases "k1 = p")
    case True
    have "swap_at a p m ! k1 = a ! m" using True pl m by (simp add: nth_swap_at)
    moreover have "swap_at a p m ! k2 = (if k2 = m then a ! p else a ! k2)"
      using True k pl m k2 by (simp add: nth_swap_at)
    ultimately show ?thesis using mn k True k2 pl by auto
  next
    case False
    then have k1: "k1 < p" using k(1) by simp
    have e1: "swap_at a p m ! k1 = a ! k1" using k1 pl m by (simp add: nth_swap_at)
    have e2: "swap_at a p m ! k2 = (if k2 = m then a ! p else if k2 = p then a ! m else a ! k2)"
      using pl m k2 by (simp add: nth_swap_at)
    show ?thesis unfolding e1 e2 using pd k1 k(2) k2 pl m
      by (auto simp: prefix_done_def)
  qed
qed

lemma prefix_done_keep:
  assumes pd: "prefix_done p a" and pl: "p < length a"
    and mn: "\<forall>k. p \<le> k \<and> k < length a \<longrightarrow> a ! p \<le> a ! k"
  shows "prefix_done (Suc p) a"
  unfolding prefix_done_def
proof (intro allI impI)
  fix k1 k2 assume k: "k1 < Suc p" "k1 < k2" "k2 < length a"
  show "a ! k1 \<le> a ! k2"
  proof (cases "k1 = p")
    case True then show ?thesis using mn k by simp
  next
    case False
    then have "k1 < p" using k(1) by simp
    then show ?thesis using pd k by (simp add: prefix_done_def)
  qed
qed

lemma selection_inner:
  assumes n: "n = int (length a)" and i: "0 \<le> i" "i < n" and m0: "mset a = mset xs"
  shows "\<exists>m outs. for_range (i + 1) n (selection_scan a i) i = Some (m, outs)
     \<and> i \<le> m \<and> m < n \<and> (\<forall>k. nat i \<le> k \<and> k < length a \<longrightarrow> a ! nat m \<le> a ! k)
     \<and> (\<forall>s \<in> set outs. frame_perm xs s)"
proof -
  define I where "I = (\<lambda>j (m :: int) (acc :: int snapshot list).
     i \<le> m \<and> m < j \<and> (\<forall>k. nat i \<le> k \<and> k < nat j \<longrightarrow> a ! nat m \<le> a ! k)
     \<and> (\<forall>s \<in> set acc. frame_perm xs s))"
  have lx: "length xs = length a" using m0 by (metis size_mset)
  have init: "I (i + 1) i []"
  proof -
    have "\<forall>k. nat i \<le> k \<and> k < nat (i + 1) \<longrightarrow> k = nat i" using i by auto
    then show ?thesis by (auto simp: I_def)
  qed
  have step: "\<exists>t1 out. selection_scan a i j m = Some (t1, out) \<and> I (j + 1) t1 (acc @ out)"
    if j: "i + 1 \<le> j" "j < n" and inv: "I j m acc" for j m acc
  proof -
    from inv have mi: "i \<le> m" "m < j"
      and mn: "\<forall>k. nat i \<le> k \<and> k < nat j \<longrightarrow> a ! nat m \<le> a ! k"
      and fr: "\<forall>s \<in> set acc. frame_perm xs s" by (simp_all add: I_def)
    have bj: "0 \<le> j" "j < int (length a)" "0 \<le> m" "m < int (length a)"
      using j i mi n by simp_all
    have nj: "nat (j + 1) = Suc (nat j)" using bj by simp
    have s1: "frame_perm xs (snap a [m, j] srt None)" for srt
      using bj m0 lx by (intro frame_perm_snap) simp_all
    have s2: "frame_perm xs (snap a [j] srt None)" for srt
      using bj m0 lx by (intro frame_perm_snap) simp_all
    show ?thesis
    proof (cases "a ! nat j < a ! nat m")
      case True
      have body: "selection_scan a i j m =
          Some (j, [snap a [m, j] (Some (py_range 0 i)) None, snap a [j] (Some (py_range 0 i)) None])"
        using True bj by (simp add: selection_scan_def py_get_in Let_def)
      have "\<forall>k. nat i \<le> k \<and> k < Suc (nat j) \<longrightarrow> a ! nat j \<le> a ! k"
      proof (intro allI impI)
        fix k assume k: "nat i \<le> k \<and> k < Suc (nat j)"
        show "a ! nat j \<le> a ! k"
        proof (cases "k = nat j")
          case True then show ?thesis by simp
        next
          case False
          with k have "k < nat j" by simp
          with mn k have "a ! nat m \<le> a ! k" by simp
          with True show ?thesis by simp
        qed
      qed
      then have "I (j + 1) j (acc @ [snap a [m, j] (Some (py_range 0 i)) None, snap a [j] (Some (py_range 0 i)) None])"
        using j i fr s1 s2 by (simp add: I_def nj)
      with body show ?thesis by blast
    next
      case False
      have body: "selection_scan a i j m = Some (m, [snap a [m, j] (Some (py_range 0 i)) None])"
        using False bj by (simp add: selection_scan_def py_get_in Let_def)
      have "\<forall>k. nat i \<le> k \<and> k < Suc (nat j) \<longrightarrow> a ! nat m \<le> a ! k"
      proof (intro allI impI)
        fix k assume k: "nat i \<le> k \<and> k < Suc (nat j)"
        show "a ! nat m \<le> a ! k"
        proof (cases "k = nat j")
          case True then show ?thesis using False by simp
        next
          case False
          with k have "k < nat j" by simp
          with mn k show ?thesis by simp
        qed
      qed
      then have "I (j + 1) m (acc @ [snap a [m, j] (Some (py_range 0 i)) None])"
        using mi fr s1 by (simp add: I_def nj)
      with body show ?thesis by blast
    qed
  qed
  from for_range_total[of I "i + 1" i n "selection_scan a i", OF init step]
  obtain m outs where r: "for_range (i + 1) n (selection_scan a i) i = Some (m, outs)"
    and f: "I (max (i + 1) n) m outs" by blast
  have mx: "max (i + 1) n = n" using i by simp
  have "nat n = length a" using n by simp
  with f have "i \<le> m \<and> m < n \<and> (\<forall>k. nat i \<le> k \<and> k < length a \<longrightarrow> a ! nat m \<le> a ! k)
     \<and> (\<forall>s \<in> set outs. frame_perm xs s)"
    unfolding mx I_def by simp
  with r show ?thesis by blast
qed

lemma selection_body_correct:
  assumes n: "n = int (length a)" and i: "0 \<le> i" "i < n" and m0: "mset a = mset xs"
    and pd: "prefix_done (nat i) a"
  shows "\<exists>a1 outs. selection_body n i a = Some (a1, outs) \<and> mset a1 = mset xs \<and>
     prefix_done (nat (i + 1)) a1 \<and> (\<forall>s \<in> set outs. frame_perm xs s)"
proof -
  from selection_inner[OF n i m0]
  obtain m out1 where r: "for_range (i + 1) n (selection_scan a i) i = Some (m, out1)"
    and mi: "i \<le> m" "m < n" and mn: "\<forall>k. nat i \<le> k \<and> k < length a \<longrightarrow> a ! nat m \<le> a ! k"
    and fr: "\<forall>s \<in> set out1. frame_perm xs s" by blast
  have lx: "length xs = length a" using m0 by (metis size_mset)
  have ni: "nat (i + 1) = Suc (nat i)" using i by simp
  have bi: "0 \<le> i" "i < int (length a)" "0 \<le> m" "m < int (length a)" using i mi n by simp_all
  have bn: "nat i \<le> nat m" "nat m < length a" "nat i < length a" using bi mi by simp_all
  show ?thesis
  proof (cases "i = m")
    case True
    have body: "selection_body n i a = Some (a, out1)"
      using r True by (simp add: selection_body_def)
    have "prefix_done (Suc (nat i)) a"
      using pd bn(3) mn True by (intro prefix_done_keep) simp_all
    with body m0 fr show ?thesis by (simp add: ni)
  next
    case False
    let ?a = "swap_at a (nat i) (nat m)"
    have body: "selection_body n i a = Some (?a, out1 @ [snap ?a [i, m] (Some (py_range 0 (i + 1))) None])"
      using r False bi by (simp add: selection_body_def py_swap_in swap_at_def)
    have ms: "mset ?a = mset xs" using m0 bn by (simp add: mset_swap_at)
    have "prefix_done (Suc (nat i)) ?a"
      using pd bn mn by (intro prefix_done_swap) simp_all
    moreover have "frame_perm xs (snap ?a [i, m] (Some (py_range 0 (i + 1))) None)"
      using ms bi lx by (intro frame_perm_snap) simp_all
    ultimately show ?thesis using body ms fr by (simp add: ni)
  qed
qed

lemma selection_sort_run:
  "\<exists>a' snaps. selection_sort xs = Some snaps \<and> run_shape xs a' snaps \<and> sorted a' \<and> mset a' = mset xs \<and>
     (\<forall>s\<in>set snaps. frame_perm xs s)"
proof -
  define n where "n = int (length xs)"
  define I where "I = (\<lambda>i (a :: int list) (acc :: int snapshot list).
     mset a = mset xs \<and> prefix_done (nat i) a \<and> (\<forall>s \<in> set acc. frame_perm xs s))"
  have init: "I 0 xs []" by (simp add: I_def prefix_done_def)
  have step: "\<exists>t1 out. selection_body n i a = Some (t1, out) \<and> I (i + 1) t1 (acc @ out)"
    if i: "0 \<le> i" "i < n" and inv: "I i a acc" for i a acc
  proof -
    from inv have m0: "mset a = mset xs" and pd: "prefix_done (nat i) a"
      and fr: "\<forall>s \<in> set acc. frame_perm xs s" by (simp_all add: I_def)
    have na: "n = int (length a)" using m0 n_def by (metis size_mset)
    from selection_body_correct[OF na i m0 pd] fr show ?thesis by (auto simp: I_def)
  qed
  from for_range_total[of I 0 xs n "selection_body n", OF init step]
  obtain a' outs where r: "for_range 0 n (selection_body n) xs = Some (a', outs)"
    and f: "I (max 0 n) a' outs" by blast
  have mx: "max 0 n = n" by (simp add: n_def)
  from f have ma: "mset a' = mset xs" and pd: "prefix_done (nat n) a'"
    and fr: "\<forall>s \<in> set outs. frame_perm xs s" unfolding mx I_def by simp_all
  have "length a' = nat n" using ma n_def by (metis nat_int size_mset)
  then have so: "sorted a'" using pd by (intro prefix_done_sorted[of a' "nat n"]) simp_all
  define snaps where "snaps = [snap xs [] (Some []) None] @ outs @ [snap a' [] (Some (py_range 0 n)) None]"
  have 1: "selection_sort xs = Some snaps"
    using r by (simp add: selection_sort_def py_len_def n_def[symmetric] snaps_def)
  have 2: "run_shape xs a' snaps" unfolding snaps_def by (rule run_shape_full[OF n_def])
  have 3: "\<forall>s\<in>set snaps. frame_perm xs s"
    using fr frame_perm_first[of xs] frame_perm_last[OF ma] by (simp add: snaps_def)
  show ?thesis
    apply (rule exI[of _ a'], rule exI[of _ snaps])
    using 1 2 3 so ma by simp
qed

section \<open>Insertion sort: correctness\<close>

text \<open>
  While \<^verbatim>\<open>insertion_sort\<close> shifts, the value \<open>key\<close> lives in a local variable and the
  array has a hole at \<open>j + 1\<close> whose content is stale. A frame of that phase therefore
  need not be a permutation of the input; it still has the input's length and holds
  values of the input only.
\<close>

definition frame_sub :: "'a list \<Rightarrow> 'a snapshot \<Rightarrow> bool" where
  "frame_sub xs s =
     (length (array s) = length xs \<and> set (array s) \<subseteq> set xs \<and>
      (\<forall>k \<in> set (active s). 0 \<le> k \<and> k < int (length xs)))"

lemma frame_sub_snap:
  "length a = length xs \<Longrightarrow> set a \<subseteq> set xs \<Longrightarrow> (\<forall>k \<in> set act. 0 \<le> k \<and> k < int (length xs)) \<Longrightarrow>
   frame_sub xs (snap a act srt lbl)"
  by (simp add: frame_sub_def snap_def)

lemma frame_perm_sub: "frame_perm xs s \<Longrightarrow> frame_sub xs s"
  unfolding frame_perm_def frame_sub_def
  using mset_eq_length[of "array s" xs] mset_eq_setD[of "array s" xs] by simp

text \<open>The array with the key written into the hole \<open>h\<close>: sorted up to \<open>i\<close> except around \<open>h\<close>,
  and everything between \<open>h\<close> and \<open>i\<close> is larger than the key.\<close>

definition hole_inv :: "nat \<Rightarrow> nat \<Rightarrow> int list \<Rightarrow> bool" where
  "hole_inv i h v =
     ((\<forall>k1 k2. k1 < k2 \<and> k2 \<le> i \<and> k1 \<noteq> h \<and> k2 \<noteq> h \<longrightarrow> v ! k1 \<le> v ! k2) \<and>
      (\<forall>k. h < k \<and> k \<le> i \<longrightarrow> v ! h < v ! k))"

lemma hole_inv_swap:
  assumes hi: "hole_inv i (Suc h) v" and b: "Suc h \<le> i" "i < length v" and gt: "v ! h > v ! Suc h"
  shows "hole_inv i h (swap_at v h (Suc h))"
proof -
  have nth: "swap_at v h (Suc h) ! k = (if k = Suc h then v ! h else if k = h then v ! Suc h else v ! k)"
    if "k \<le> i" for k using that b by (simp add: nth_swap_at)
  from hi have p1: "\<And>k1 k2. k1 < k2 \<Longrightarrow> k2 \<le> i \<Longrightarrow> k1 \<noteq> Suc h \<Longrightarrow> k2 \<noteq> Suc h \<Longrightarrow> v ! k1 \<le> v ! k2"
    and p2: "\<And>k. Suc h < k \<Longrightarrow> k \<le> i \<Longrightarrow> v ! Suc h < v ! k"
    by (auto simp: hole_inv_def)
  show ?thesis unfolding hole_inv_def
  proof (intro conjI allI impI)
    fix k1 k2 assume k: "k1 < k2 \<and> k2 \<le> i \<and> k1 \<noteq> h \<and> k2 \<noteq> h"
    then have le: "k1 \<le> i" "k2 \<le> i" by simp_all
    consider "k2 = Suc h" | "k1 = Suc h" | "k1 \<noteq> Suc h" "k2 \<noteq> Suc h" by blast
    then show "swap_at v h (Suc h) ! k1 \<le> swap_at v h (Suc h) ! k2"
    proof cases
      case 1
      then have "k1 < h" using k by simp
      then have "v ! k1 \<le> v ! h" using b by (intro p1) simp_all
      then show ?thesis using 1 k le by (simp add: nth)
    next
      case 2
      then have "v ! h \<le> v ! k2" using k b by (intro p1) simp_all
      then show ?thesis using 2 k le by (simp add: nth)
    next
      case 3
      then have "v ! k1 \<le> v ! k2" using k by (intro p1) simp_all
      then show ?thesis using 3 k le by (simp add: nth)
    qed
  next
    fix k assume k: "h < k \<and> k \<le> i"
    show "swap_at v h (Suc h) ! h < swap_at v h (Suc h) ! k"
    proof (cases "k = Suc h")
      case True
      then show ?thesis using gt b by (simp add: nth)
    next
      case False
      then have "v ! Suc h < v ! k" using k by (intro p2) simp_all
      then show ?thesis using False k b by (simp add: nth)
    qed
  qed
qed

lemma hole_inv_done:
  assumes hi: "hole_inv i h v" and b: "h \<le> i" "i < length v"
    and ex: "h = 0 \<or> v ! (h - 1) \<le> v ! h"
  shows "sorted (take (Suc i) v)"
proof -
  from hi have p1: "\<And>k1 k2. k1 < k2 \<Longrightarrow> k2 \<le> i \<Longrightarrow> k1 \<noteq> h \<Longrightarrow> k2 \<noteq> h \<Longrightarrow> v ! k1 \<le> v ! k2"
    and p2: "\<And>k. h < k \<Longrightarrow> k \<le> i \<Longrightarrow> v ! h < v ! k"
    by (auto simp: hole_inv_def)
  have "v ! k1 \<le> v ! k2" if k: "k1 < k2" "k2 \<le> i" for k1 k2
  proof -
    consider "k1 = h" | "k2 = h" | "k1 \<noteq> h" "k2 \<noteq> h" by blast
    then show ?thesis
    proof cases
      case 1 then show ?thesis using p2[of k2] k by simp
    next
      case 2
      then have h0: "h \<noteq> 0" using k by simp
      with ex have e: "v ! (h - 1) \<le> v ! h" by simp
      show ?thesis
      proof (cases "k1 = h - 1")
        case True then show ?thesis using e 2 by simp
      next
        case False
        then have "v ! k1 \<le> v ! (h - 1)" using k 2 h0 by (intro p1) auto
        then show ?thesis using e 2 by simp
      qed
    next
      case 3 then show ?thesis using k by (intro p1)
    qed
  qed
  then show ?thesis using b by (auto simp: sorted_iff_nth_mono_less)
qed

lemma hole_shift_eq:
  assumes "Suc h < length a"
  shows "(a[Suc h := a ! h])[h := key] = swap_at (a[Suc h := key]) h (Suc h)"
proof -
  have "swap_at (a[Suc h := key]) h (Suc h) = (a[Suc h := key])[h := key, Suc h := a ! h]"
    using assms by (simp add: swap_at_def)
  also have "\<dots> = (a[h := key])[Suc h := a ! h]"
    by (simp add: list_update_swap[of "Suc h" h])
  also have "\<dots> = (a[Suc h := a ! h])[h := key]"
    by (simp add: list_update_swap[of "Suc h" h])
  finally show ?thesis by simp
qed

lemma insertion_shift_correct:
  assumes n: "n = int (length xs)" and i: "0 \<le> i" "i < n"
  shows "h = nat (j + 1) \<Longrightarrow> - 1 \<le> j \<Longrightarrow> j < i \<Longrightarrow> length a = length xs \<Longrightarrow> set a \<subseteq> set xs \<Longrightarrow>
     hole_inv (nat i) h (a[h := key]) \<Longrightarrow>
     \<exists>a' j' outs. insertion_shift n i key j a = Some ((a', j'), outs) \<and> - 1 \<le> j' \<and> j' \<le> j \<and>
        length a' = length xs \<and> set a' \<subseteq> set xs \<and>
        mset (a'[nat (j' + 1) := key]) = mset (a[h := key]) \<and>
        sorted (take (Suc (nat i)) (a'[nat (j' + 1) := key])) \<and>
        (\<forall>s\<in>set outs. frame_sub xs s)"
proof (induction h arbitrary: j a)
  case 0
  then have j: "j = - 1" by simp
  have r: "insertion_shift n i key j a = Some ((a, j), [])"
    using j by (subst insertion_shift.simps) simp
  have "sorted (take (Suc (nat i)) (a[0 := key]))"
    using "0.prems"(6) i n "0.prems"(4) by (intro hole_inv_done[of "nat i" 0]) simp_all
  with r j 0 show ?case by simp
next
  case (Suc h)
  have j0: "0 \<le> j" using Suc.prems(1) by linarith
  have nj: "nat j = h" "nat (j + 1) = Suc h" using Suc.prems(1) j0 by simp_all
  have la: "length a = length xs" by fact
  have hb: "Suc h \<le> nat i" "nat i < length a" using Suc.prems(1,3) i n la j0 by simp_all
  have bj: "0 \<le> j" "j < int (length a)" "0 \<le> j + 1" "j + 1 < int (length a)"
    using j0 hb nj by linarith+
  have hv: "hole_inv (nat i) (Suc h) (a[Suc h := key])" by fact
  have vh: "(a[Suc h := key]) ! h = a ! h" "(a[Suc h := key]) ! Suc h = key"
    using hb by simp_all
  show ?case
  proof (cases "a ! h > key")
    case False
    have r: "insertion_shift n i key j a = Some ((a, j), [])"
      using False bj nj by (subst insertion_shift.simps) (simp add: py_get_in)
    have "sorted (take (Suc (nat i)) (a[Suc h := key]))"
      using hv hb False vh by (intro hole_inv_done[of "nat i" "Suc h"]) simp_all
    with r Suc.prems nj show ?thesis by simp
  next
    case True
    define a1 where "a1 = a[Suc h := a ! h]"
    let ?s1 = "snap a [j, j + 1] (Some (py_range (i + 1) n)) None"
    let ?s2 = "snap a1 [j - 1 + 1] (Some (py_range (i + 1) n)) None"
    have l1: "length a1 = length xs" using la by (simp add: a1_def)
    have "a ! h \<in> set a" using hb by simp
    then have s1: "set a1 \<subseteq> set xs"
      using Suc.prems(5) set_update_subset_insert[of a "Suc h" "a ! h"] by (auto simp: a1_def)
    have eq: "a1[h := key] = swap_at (a[Suc h := key]) h (Suc h)"
      unfolding a1_def using hb by (intro hole_shift_eq) simp
    have hv1: "hole_inv (nat i) h (a1[h := key])"
      unfolding eq using hv hb True vh by (intro hole_inv_swap) simp_all
    have h1: "h = nat (j - 1 + 1)" using nj by simp
    from Suc.IH[OF h1 _ _ l1 s1 hv1] j0 Suc.prems(3)
    obtain a' j' outs where r1: "insertion_shift n i key (j - 1) a1 = Some ((a', j'), outs)"
      and res: "- 1 \<le> j'" "j' \<le> j - 1" "length a' = length xs" "set a' \<subseteq> set xs"
        "mset (a'[nat (j' + 1) := key]) = mset (a1[h := key])"
        "sorted (take (Suc (nat i)) (a'[nat (j' + 1) := key]))"
        "\<forall>s\<in>set outs. frame_sub xs s"
      by auto
    have r: "insertion_shift n i key j a = Some ((a', j'), ?s1 # ?s2 # outs)"
      using True bj nj r1
      by (subst insertion_shift.simps) (simp add: py_get_in py_set_in Let_def a1_def)
    have ms: "mset (a1[h := key]) = mset (a[Suc h := key])"
      unfolding eq using hb by (intro mset_swap_at) simp_all
    have f1: "frame_sub xs ?s1"
      using la Suc.prems(5) bj by (intro frame_sub_snap) simp_all
    have f2: "frame_sub xs ?s2"
      using l1 s1 bj la by (intro frame_sub_snap) simp_all
    show ?thesis using r res ms f1 f2 by simp
  qed
qed

lemma insertion_body_correct:
  assumes n: "n = int (length xs)" and i: "1 \<le> i" "i < n" and m0: "mset a = mset xs"
    and so: "sorted (take (nat i) a)"
  shows "\<exists>a2 outs. insertion_body n i a = Some (a2, outs) \<and> mset a2 = mset xs \<and>
     sorted (take (nat (i + 1)) a2) \<and> (\<forall>s \<in> set outs. frame_sub xs s)"
proof -
  have la: "length a = length xs" using m0 by (rule mset_eq_length)
  have sa: "set a \<subseteq> set xs" using mset_eq_setD[OF m0] by simp
  have bi: "0 \<le> i" "i < int (length a)" using i n la by simp_all
  define key where "key = a ! nat i"
  have self: "a[nat i := key] = a" by (simp add: key_def)
  have hv: "hole_inv (nat i) (nat i) (a[nat i := key])"
    unfolding self hole_inv_def
  proof (intro conjI allI impI)
    fix k1 k2 assume "k1 < k2 \<and> k2 \<le> nat i \<and> k1 \<noteq> nat i \<and> k2 \<noteq> nat i"
    then have k: "k1 < k2" "k2 < nat i" by simp_all
    have "take (nat i) a ! k1 \<le> take (nat i) a ! k2"
      using so k bi by (intro sorted_nth_mono) simp_all
    then show "a ! k1 \<le> a ! k2" using k by simp
  qed simp
  have i0: "0 \<le> i" using i by simp
  from insertion_shift_correct[OF n i0 i(2), of "nat i" "i - 1" a key] la sa hv i
  obtain a1 j outs where r: "insertion_shift n i key (i - 1) a = Some ((a1, j), outs)"
    and res: "- 1 \<le> j" "j \<le> i - 1" "length a1 = length xs" "set a1 \<subseteq> set xs"
      "mset (a1[nat (j + 1) := key]) = mset (a[nat i := key])"
      "sorted (take (Suc (nat i)) (a1[nat (j + 1) := key]))"
      "\<forall>s\<in>set outs. frame_sub xs s"
    by auto
  let ?a2 = "a1[nat (j + 1) := key]"
  have bj: "0 \<le> j + 1" "j + 1 < int (length a1)" using res i n by simp_all
  have body: "insertion_body n i a = Some (?a2, outs @ [snap ?a2 [j + 1] (Some (py_range (i + 1) n)) None])"
    using r bi bj by (simp add: insertion_body_def py_get_in py_set_in key_def)
  have ms: "mset ?a2 = mset xs" using res(5) m0 by (simp add: self)
  have "frame_perm xs (snap ?a2 [j + 1] (Some (py_range (i + 1) n)) None)"
    using ms bj res(3) by (intro frame_perm_snap) simp_all
  then have fl: "frame_sub xs (snap ?a2 [j + 1] (Some (py_range (i + 1) n)) None)"
    by (rule frame_perm_sub)
  have "nat (i + 1) = Suc (nat i)" using i by simp
  with body ms res(6,7) fl show ?thesis by simp
qed

lemma insertion_sort_run:
  "\<exists>a' snaps. insertion_sort xs = Some snaps \<and> run_shape xs a' snaps \<and> sorted a' \<and> mset a' = mset xs \<and>
     (\<forall>s\<in>set snaps. frame_sub xs s)"
proof -
  define n where "n = int (length xs)"
  define I where "I = (\<lambda>i (a :: int list) (acc :: int snapshot list).
     mset a = mset xs \<and> sorted (take (nat i) a) \<and> (\<forall>s \<in> set acc. frame_sub xs s))"
  have "sorted (take (Suc 0) xs)" by (cases xs) simp_all
  then have init: "I 1 xs []" by (simp add: I_def)
  have step: "\<exists>t1 out. insertion_body n i a = Some (t1, out) \<and> I (i + 1) t1 (acc @ out)"
    if i: "1 \<le> i" "i < n" and inv: "I i a acc" for i a acc
  proof -
    from inv have m0: "mset a = mset xs" and so: "sorted (take (nat i) a)"
      and fr: "\<forall>s \<in> set acc. frame_sub xs s" by (simp_all add: I_def)
    from insertion_body_correct[OF n_def i m0 so] fr show ?thesis by (auto simp: I_def)
  qed
  from for_range_total[of I 1 xs n "insertion_body n", OF init step]
  obtain a' outs where r: "for_range 1 n (insertion_body n) xs = Some (a', outs)"
    and f: "I (max 1 n) a' outs" by blast
  from f have ma: "mset a' = mset xs" and st: "sorted (take (nat (max 1 n)) a')"
    and fr: "\<forall>s \<in> set outs. frame_sub xs s" unfolding I_def by simp_all
  have "length a' = nat n" using mset_eq_length[OF ma] by (simp add: n_def)
  then have "length a' \<le> nat (max 1 n)" by simp
  then have so: "sorted a'" using st by simp
  define snaps where "snaps = [snap xs [] (Some []) None] @ outs @ [snap a' [] (Some (py_range 0 n)) None]"
  have 1: "insertion_sort xs = Some snaps"
    using r by (simp add: insertion_sort_def py_len_def n_def[symmetric] snaps_def)
  have 2: "run_shape xs a' snaps" unfolding snaps_def by (rule run_shape_full[OF n_def])
  have 3: "\<forall>s\<in>set snaps. frame_sub xs s"
    using fr frame_perm_sub[OF frame_perm_first[of xs]] frame_perm_sub[OF frame_perm_last[OF ma]]
    by (simp add: snaps_def)
  show ?thesis
    apply (rule exI[of _ a'], rule exI[of _ snaps])
    using 1 2 3 so ma by simp
qed

section \<open>Merge sort: correctness and stability\<close>

text \<open>The merge of two lists by key, the left list winning a tie: what \<^verbatim>\<open>merge\<close> is shown
  to write into the range \<open>[left, right)\<close>.\<close>

fun merge_lists :: "('a \<Rightarrow> 'k::linorder) \<Rightarrow> 'a list \<Rightarrow> 'a list \<Rightarrow> 'a list" where
  "merge_lists f [] ys = ys"
| "merge_lists f xs [] = xs"
| "merge_lists f (x # xs) (y # ys) =
     (if f x \<le> f y then x # merge_lists f xs (y # ys) else y # merge_lists f (x # xs) ys)"

lemma merge_lists_Nil2 [simp]: "merge_lists f xs [] = xs"
  by (cases xs) simp_all

lemma py_slice_in:
  "0 \<le> lo \<Longrightarrow> lo \<le> hi \<Longrightarrow> hi \<le> int (length a) \<Longrightarrow>
   py_slice a lo hi = take (nat hi - nat lo) (drop (nat lo) a)"
  by (simp add: py_slice_def py_clamp_def py_len_def Let_def min_def max_def)

lemma merge_rest_correct:
  assumes lx: "length xs = length (P @ X @ S)"
  shows "length X = m \<Longrightarrow> a = P @ X @ S \<Longrightarrow> length P = nat k \<Longrightarrow> 0 \<le> k \<Longrightarrow> 0 \<le> i \<Longrightarrow>
     int (length X) = int (length B) - i \<Longrightarrow> set a \<subseteq> set xs \<Longrightarrow> set B \<subseteq> set xs \<Longrightarrow>
     \<exists>i' k' outs. merge_rest B i k a = Some ((i', k', P @ drop (nat i) B @ S), outs) \<and>
        k' = k + int (length X) \<and> (\<forall>s\<in>set outs. frame_sub xs s)"
  using lx
proof (induction m arbitrary: a P X k i)
  case 0
  then have "X = []" "\<not> i < int (length B)" by simp_all
  moreover from 0 have "drop (nat i) B = []" by simp
  ultimately show ?case using 0 by (subst merge_rest.simps) (simp add: py_len_def)
next
  case (Suc m)
  then obtain x X' where X: "X = x # X'" by (cases X) simp_all
  have il: "i < int (length B)" using Suc.prems(6) X by simp
  have iB: "nat i < length B" using il Suc.prems(5) by simp
  have la: "length a = length xs" using Suc.prems(2,9) by simp
  have kl: "k < int (length a)" using Suc.prems(2,3,4) X by simp
  define v where "v = B ! nat i"
  define a1 where "a1 = P @ v # X' @ S"
  have a1: "a[nat k := v] = a1"
    using Suc.prems(2,3) X by (simp add: a1_def list_update_append)
  have a1': "a1 = (P @ [v]) @ X' @ S" by (simp add: a1_def)
  have vB: "v \<in> set B" using iB by (simp add: v_def)
  have sa1: "set a1 \<subseteq> set xs"
    using Suc.prems(2,7,8) X vB by (auto simp: a1_def)
  have l1: "length xs = length ((P @ [v]) @ X' @ S)" using Suc.prems(9) X by simp
  have "\<exists>i' k' outs. merge_rest B (i + 1) (k + 1) a1 = Some ((i', k', (P @ [v]) @ drop (nat (i + 1)) B @ S), outs) \<and>
        k' = (k + 1) + int (length X') \<and> (\<forall>s\<in>set outs. frame_sub xs s)"
    using Suc.prems X sa1
    by (intro Suc.IH[OF _ a1' _ _ _ _ _ _ l1]) (simp_all add: nat_add_distrib)
  then obtain i' k' outs where r: "merge_rest B (i + 1) (k + 1) a1 = Some ((i', k', (P @ [v]) @ drop (nat (i + 1)) B @ S), outs)"
    and k': "k' = (k + 1) + int (length X')" and fr: "\<forall>s\<in>set outs. frame_sub xs s" by blast
  have dr: "drop (nat i) B = v # drop (nat (i + 1)) B"
    using iB Suc.prems(5) by (simp add: v_def Cons_nth_drop_Suc nat_add_distrib)
  have f1: "frame_sub xs (snap a1 [k + 1 - 1] None None)"
    using sa1 la kl Suc.prems(4) a1[symmetric] by (intro frame_sub_snap) simp_all
  have "merge_rest B i k a = Some ((i', k', P @ drop (nat i) B @ S), snap a1 [k + 1 - 1] None None # outs)"
    using il r Suc.prems(4,5) kl iB a1
    by (subst merge_rest.simps) (simp add: py_len_def py_get_in py_set_in Let_def v_def[symmetric] dr)
  then show ?case using k' fr f1 X by simp
qed

lemma merge_both_correct:
  assumes iL: "0 \<le> i" "i \<le> int (length L)" and jR: "0 \<le> j" "j \<le> int (length R)"
  shows "length X = m \<Longrightarrow> a = P @ X @ S \<Longrightarrow> length P = nat k \<Longrightarrow> 0 \<le> k \<Longrightarrow>
     int (length X) = (int (length L) - i) + (int (length R) - j) \<Longrightarrow>
     length xs = length a \<Longrightarrow> set a \<subseteq> set xs \<Longrightarrow> set L \<subseteq> set xs \<Longrightarrow> set R \<subseteq> set xs \<Longrightarrow>
     \<exists>i' j' k' P' X' outs. merge_both f L R lbl i j k a = Some ((i', j', k', P' @ X' @ S), outs) \<and>
        0 \<le> i' \<and> i' \<le> int (length L) \<and> 0 \<le> j' \<and> j' \<le> int (length R) \<and>
        (i' = int (length L) \<or> j' = int (length R)) \<and> 0 \<le> k' \<and> length P' = nat k' \<and>
        int (length X') = (int (length L) - i') + (int (length R) - j') \<and>
        length (P' @ X' @ S) = length a \<and> set (P' @ X' @ S) \<subseteq> set xs \<and>
        P' @ merge_lists f (drop (nat i') L) (drop (nat j') R) =
          P @ merge_lists f (drop (nat i) L) (drop (nat j) R) \<and>
        (\<forall>s\<in>set outs. frame_sub xs s)"
  using iL jR
proof (induction m arbitrary: a P X k i j)
  case 0
  then have e: "i = int (length L)" "j = int (length R)" "X = []" by simp_all
  have mb: "merge_both f L R lbl i j k a = Some ((i, j, k, a), [])"
    using e by (subst merge_both.simps) (simp add: py_len_def)
  show ?case
    apply (rule exI[of _ i], rule exI[of _ j], rule exI[of _ k], rule exI[of _ P], rule exI[of _ "[]"], rule exI[of _ "[]"])
    using mb 0 e by simp
next
  case (Suc m)
  show ?case
  proof (cases "i < int (length L) \<and> j < int (length R)")
    case False
    have mb: "merge_both f L R lbl i j k a = Some ((i, j, k, a), [])"
      by (subst merge_both.simps) (simp only: py_len_def False if_False)
    show ?thesis
      apply (rule exI[of _ i], rule exI[of _ j], rule exI[of _ k], rule exI[of _ P], rule exI[of _ X], rule exI[of _ "[]"])
      using mb Suc.prems False by auto
  next
    case True
    obtain x0 X' where X: "X = x0 # X'" using Suc.prems(1) by (cases X) simp_all
    have iB: "nat i < length L" "nat j < length R" using True Suc.prems(10,12) by linarith+
    have kl: "k < int (length a)" using Suc.prems(2,3,4) X by simp
    define x where "x = L ! nat i"
    define y where "y = R ! nat j"
    define v where "v = (if f x \<le> f y then x else y)"
    define i1 where "i1 = (if f x \<le> f y then i + 1 else i)"
    define j1 where "j1 = (if f x \<le> f y then j else j + 1)"
    define a1 where "a1 = P @ v # X' @ S"
    have a1: "a[nat k := v] = a1"
      using Suc.prems(2,3) X by (simp add: a1_def list_update_append)
    have a1': "a1 = (P @ [v]) @ X' @ S" by (simp add: a1_def)
    have "x \<in> set L" "y \<in> set R" using iB by (simp_all add: x_def y_def)
    then have vx: "v \<in> set xs" using Suc.prems(8,9) by (auto simp: v_def)
    have sa1: "set a1 \<subseteq> set xs" using Suc.prems(2,7) X vx by (auto simp: a1_def)
    have l1: "length xs = length a1" using Suc.prems(2,6) X by (simp add: a1_def)
    have b1: "0 \<le> i1" "i1 \<le> int (length L)" "0 \<le> j1" "j1 \<le> int (length R)"
      using True Suc.prems(10,12) by (simp_all add: i1_def j1_def)
    have lX: "int (length X') = (int (length L) - i1) + (int (length R) - j1)"
      using Suc.prems(5) X by (simp add: i1_def j1_def)
    have "\<exists>i' j' k' P' X'' outs. merge_both f L R lbl i1 j1 (k + 1) a1 = Some ((i', j', k', P' @ X'' @ S), outs) \<and>
        0 \<le> i' \<and> i' \<le> int (length L) \<and> 0 \<le> j' \<and> j' \<le> int (length R) \<and>
        (i' = int (length L) \<or> j' = int (length R)) \<and> 0 \<le> k' \<and> length P' = nat k' \<and>
        int (length X'') = (int (length L) - i') + (int (length R) - j') \<and>
        length (P' @ X'' @ S) = length a1 \<and> set (P' @ X'' @ S) \<subseteq> set xs \<and>
        P' @ merge_lists f (drop (nat i') L) (drop (nat j') R) =
          (P @ [v]) @ merge_lists f (drop (nat i1) L) (drop (nat j1) R) \<and>
        (\<forall>s\<in>set outs. frame_sub xs s)"
      using Suc.prems(1,3,4,8,9) X lX l1 sa1 b1
      by (intro Suc.IH[OF _ a1']) (simp_all add: nat_add_distrib)
    then obtain i' j' k' P' X'' outs where
      r: "merge_both f L R lbl i1 j1 (k + 1) a1 = Some ((i', j', k', P' @ X'' @ S), outs)"
      and res: "0 \<le> i'" "i' \<le> int (length L)" "0 \<le> j'" "j' \<le> int (length R)"
        "i' = int (length L) \<or> j' = int (length R)" "0 \<le> k'" "length P' = nat k'"
        "int (length X'') = (int (length L) - i') + (int (length R) - j')"
        "length (P' @ X'' @ S) = length a1" "set (P' @ X'' @ S) \<subseteq> set xs"
        "\<forall>s\<in>set outs. frame_sub xs s"
      and mg: "P' @ merge_lists f (drop (nat i') L) (drop (nat j') R) =
          (P @ [v]) @ merge_lists f (drop (nat i1) L) (drop (nat j1) R)"
      by blast
    have dL: "drop (nat i) L = x # drop (nat (i + 1)) L"
      using iB Suc.prems(10) by (simp add: x_def Cons_nth_drop_Suc nat_add_distrib)
    have dR: "drop (nat j) R = y # drop (nat (j + 1)) R"
      using iB Suc.prems(12) by (simp add: y_def Cons_nth_drop_Suc nat_add_distrib)
    have step: "merge_lists f (drop (nat i) L) (drop (nat j) R) =
        v # merge_lists f (drop (nat i1) L) (drop (nat j1) R)"
    proof -
      have "merge_lists f (drop (nat i) L) (drop (nat j) R) =
          (if f x \<le> f y then x # merge_lists f (drop (nat (i + 1)) L) (drop (nat j) R)
           else y # merge_lists f (drop (nat i) L) (drop (nat (j + 1)) R))"
        using merge_lists.simps(3)[of f x "drop (nat (i + 1)) L" y "drop (nat (j + 1)) R"]
        unfolding dL[symmetric] dR[symmetric] .
      then show ?thesis by (simp add: v_def i1_def j1_def)
    qed
    let ?s1 = "snap a [k] None (Some lbl)"
    let ?s2 = "snap a1 [k + 1 - 1] None (Some ''after write'')"
    have f1: "frame_sub xs ?s1"
      using Suc.prems(4,6,7) kl by (intro frame_sub_snap) simp_all
    have f2: "frame_sub xs ?s2"
      using sa1 l1 kl Suc.prems(4,6) by (intro frame_sub_snap) simp_all
    have inner: "(if f x \<le> f y then py_set a k x \<bind> (\<lambda>a'. Some (i + 1, j, a'))
                  else py_set a k y \<bind> (\<lambda>a'. Some (i, j + 1, a'))) = Some (i1, j1, a1)"
      using kl Suc.prems(4) a1 by (cases "f x \<le> f y") (simp_all add: py_set_in v_def i1_def j1_def)
    have c1: "merge_both f L R lbl i j k a = Some ((i', j', k', P' @ X'' @ S), ?s1 # ?s2 # outs)"
      using True r iB Suc.prems(10,12)
      by (subst merge_both.simps)
         (simp add: py_len_def py_get_in Let_def x_def[symmetric] y_def[symmetric] inner)
    have c2: "length (P' @ X'' @ S) = length a" using res(9) l1 Suc.prems(6) by simp
    have c3: "P' @ merge_lists f (drop (nat i') L) (drop (nat j') R) =
          P @ merge_lists f (drop (nat i) L) (drop (nat j) R)"
      using mg step by simp
    show ?thesis
      apply (rule exI[of _ i'], rule exI[of _ j'], rule exI[of _ k'], rule exI[of _ P'], rule exI[of _ X''], rule exI[of _ "?s1 # ?s2 # outs"])
      using c1 c2 c3 res(1-8,10,11) f1 f2 by simp
  qed
qed


lemma merge_correct:
  assumes a: "a = P @ (L @ R) @ S"
    and lens: "length P = nat left" "int (length L) = mid - left" "int (length R) = right - mid"
      "0 \<le> left"
    and lx: "length xs = length a" and sx: "set a \<subseteq> set xs"
  shows "\<exists>outs. merge f left mid right a = Some (P @ merge_lists f L R @ S, outs) \<and>
     (\<forall>s\<in>set outs. frame_sub xs s)"
proof -
  have b: "0 \<le> left" "left \<le> mid" "mid \<le> right" "right \<le> int (length a)"
    using lens a by simp_all
  have nl: "nat mid - nat left = length L" "nat right - nat mid = length R"
    "nat mid = length P + length L"
    using lens b by linarith+
  have sL: "py_slice a left mid = L"
    using b nl lens(1) by (subst py_slice_in) (simp_all add: a)
  have sR: "py_slice a mid right = R"
    using b nl lens(1) by (subst py_slice_in) (simp_all add: a)
  have sLx: "set L \<subseteq> set xs" and sRx: "set R \<subseteq> set xs" using sx a by auto
  define lbl where "lbl = merge_label left mid right"
  have "\<exists>i' j' k' P' X' outs. merge_both f L R lbl 0 0 left a = Some ((i', j', k', P' @ X' @ S), outs) \<and>
        0 \<le> i' \<and> i' \<le> int (length L) \<and> 0 \<le> j' \<and> j' \<le> int (length R) \<and>
        (i' = int (length L) \<or> j' = int (length R)) \<and> 0 \<le> k' \<and> length P' = nat k' \<and>
        int (length X') = (int (length L) - i') + (int (length R) - j') \<and>
        length (P' @ X' @ S) = length a \<and> set (P' @ X' @ S) \<subseteq> set xs \<and>
        P' @ merge_lists f (drop (nat i') L) (drop (nat j') R) =
          P @ merge_lists f (drop (nat 0) L) (drop (nat 0) R) \<and>
        (\<forall>s\<in>set outs. frame_sub xs s)"
    using a lens lx sx sLx sRx
    by (intro merge_both_correct[where X = "L @ R" and m = "length (L @ R)"]) simp_all
  then obtain i' j' k' P' X' out1 where
    r1: "merge_both f L R lbl 0 0 left a = Some ((i', j', k', P' @ X' @ S), out1)"
    and res: "0 \<le> i'" "i' \<le> int (length L)" "0 \<le> j'" "j' \<le> int (length R)"
      "i' = int (length L) \<or> j' = int (length R)" "0 \<le> k'" "length P' = nat k'"
      "int (length X') = (int (length L) - i') + (int (length R) - j')"
      "length (P' @ X' @ S) = length a" "set (P' @ X' @ S) \<subseteq> set xs"
      "\<forall>s\<in>set out1. frame_sub xs s"
    and mg: "P' @ merge_lists f (drop (nat i') L) (drop (nat j') R) = P @ merge_lists f L R"
    by auto
  define X1 where "X1 = take (length L - nat i') X'"
  define X2 where "X2 = drop (length L - nat i') X'"
  have X': "X' = X1 @ X2" by (simp add: X1_def X2_def)
  have lX1: "int (length X1) = int (length L) - i'"
    using res(1-4,8) by (simp add: X1_def min_def) linarith
  have "length X' = length X1 + length X2"
    using arg_cong[OF X', of length] by simp
  then have lX2: "int (length X2) = int (length R) - j'"
    using res(8) lX1 by linarith
  have l2: "length xs = length (P' @ X1 @ (X2 @ S))" using res(9) lx X' by simp
  have "\<exists>i2 k2 outs. merge_rest L i' k' (P' @ X1 @ (X2 @ S)) =
        Some ((i2, k2, P' @ drop (nat i') L @ (X2 @ S)), outs) \<and>
        k2 = k' + int (length X1) \<and> (\<forall>s\<in>set outs. frame_sub xs s)"
    using res(1,6,7,10) lX1 sLx X'
    by (intro merge_rest_correct[OF l2, where m = "length X1"]) simp_all
  then obtain i2 k2 out2 where
    r2: "merge_rest L i' k' (P' @ X' @ S) = Some ((i2, k2, P' @ drop (nat i') L @ X2 @ S), out2)"
    and k2: "k2 = k' + int (length X1)" and fr2: "\<forall>s\<in>set out2. frame_sub xs s"
    by (auto simp: X')
  have ld: "int (length (drop (nat i') L)) = int (length L) - i'" using res(1,2) by simp
  have ldn: "length (drop (nat i') L) = length X1" using lX1 ld by linarith
  have l3: "length xs = length ((P' @ drop (nat i') L) @ X2 @ S)"
    using l2 by (simp only: length_append ldn)
  have s3: "set ((P' @ drop (nat i') L) @ X2 @ S) \<subseteq> set xs"
    using res(10) X' sLx set_drop_subset[of "nat i'" L] by auto
  have lP3: "length (P' @ drop (nat i') L) = nat k2"
    using res(6,7) k2 ldn by (simp only: length_append)
  have k20: "0 \<le> k2" using res(6) k2 by simp
  have "\<exists>j3 k3 outs. merge_rest R j' k2 ((P' @ drop (nat i') L) @ X2 @ S) =
        Some ((j3, k3, (P' @ drop (nat i') L) @ drop (nat j') R @ S), outs) \<and>
        k3 = k2 + int (length X2) \<and> (\<forall>s\<in>set outs. frame_sub xs s)"
    by (rule merge_rest_correct[OF l3 refl refl lP3 k20 res(3) lX2 s3 sRx])
  then obtain j3 k3 out3 where
    r3: "merge_rest R j' k2 (P' @ drop (nat i') L @ X2 @ S) =
        Some ((j3, k3, P' @ drop (nat i') L @ drop (nat j') R @ S), out3)"
    and fr3: "\<forall>s\<in>set out3. frame_sub xs s"
    by auto
  have "merge_lists f (drop (nat i') L) (drop (nat j') R) = drop (nat i') L @ drop (nat j') R"
    using res(5) by auto
  with mg have "(P' @ drop (nat i') L @ drop (nat j') R) @ S = (P @ merge_lists f L R) @ S"
    by simp
  then have fin: "P' @ drop (nat i') L @ drop (nat j') R @ S = P @ merge_lists f L R @ S"
    by simp
  have "merge f left mid right a = Some (P @ merge_lists f L R @ S, out1 @ out2 @ out3)"
    using r1 r2 r3 fin by (simp add: merge_def sL sR lbl_def[symmetric])
  with res(11) fr2 fr3 show ?thesis by auto
qed

lemma mset_merge_lists: "mset (merge_lists f xs ys) = mset xs + mset ys"
  by (induction f xs ys rule: merge_lists.induct) simp_all

lemma set_merge_lists: "set (merge_lists f xs ys) = set xs \<union> set ys"
  using mset_merge_lists[of f xs ys, THEN arg_cong[where f = set_mset]] by simp

lemma sorted_merge_lists:
  "sorted (map f xs) \<Longrightarrow> sorted (map f ys) \<Longrightarrow> sorted (map f (merge_lists f xs ys))"
  by (induction f xs ys rule: merge_lists.induct) (auto simp: set_merge_lists)

text \<open>Stability of the merge: among the elements of one key, those of the left list come
  first, each list keeping its order.\<close>

lemma filter_merge_lists:
  "sorted (map f xs) \<Longrightarrow> sorted (map f ys) \<Longrightarrow>
   filter (\<lambda>x. f x = c) (merge_lists f xs ys) = filter (\<lambda>x. f x = c) xs @ filter (\<lambda>x. f x = c) ys"
proof (induction f xs ys rule: merge_lists.induct)
  case (3 f x xs y ys)
  show ?case
  proof (cases "f x \<le> f y")
    case True
    with 3 show ?thesis by simp
  next
    case False
    have "filter (\<lambda>z. f z = c) (x # xs) = []" if "f y = c"
    proof -
      have "\<forall>z\<in>set (x # xs). f x \<le> f z" using "3.prems"(1) by auto
      with False that have "\<forall>z\<in>set (x # xs). f z \<noteq> c" by auto
      then show ?thesis by (simp only: filter_empty_conv)
    qed
    with 3 False show ?thesis by auto
  qed
qed simp_all

lemma merge_lists_sort_key:
  "merge_lists f (sort_key f A) (sort_key f B) = sort_key f (A @ B)"
proof (rule properties_for_sort_key[symmetric])
  show "mset (merge_lists f (sort_key f A) (sort_key f B)) = mset (A @ B)"
    by (simp add: mset_merge_lists)
  show "sorted (map f (merge_lists f (sort_key f A) (sort_key f B)))"
    by (intro sorted_merge_lists) simp_all
  fix k
  have "filter (\<lambda>x. f x = f k) (merge_lists f (sort_key f A) (sort_key f B)) =
      filter (\<lambda>x. f x = f k) (A @ B)"
    by (simp add: filter_merge_lists sort_key_stable)
  moreover have "(\<lambda>x. f k = f x) = (\<lambda>x. f x = f k)" by auto
  ultimately show "filter (\<lambda>x. f k = f x) (merge_lists f (sort_key f A) (sort_key f B)) =
      filter (\<lambda>x. f k = f x) (A @ B)" by simp
qed

lemma sort_rec_correct:
  "m = nat (right - left) \<Longrightarrow> a = P @ M @ S \<Longrightarrow> length P = nat left \<Longrightarrow> 0 \<le> left \<Longrightarrow>
   int (length M) = right - left \<Longrightarrow> length xs = length a \<Longrightarrow> set a \<subseteq> set xs \<Longrightarrow>
   \<exists>outs. sort_rec f left right a = Some (P @ sort_key f M @ S, outs) \<and>
     (\<forall>s\<in>set outs. frame_sub xs s)"
proof (induction m arbitrary: left right a P M S rule: less_induct)
  case (less m)
  show ?case
  proof (cases "right - left \<le> 1")
    case True
    then have "length M \<le> 1" using less.prems(5) by simp
    then have "sort_key f M = M" by (cases M) (simp_all add: Suc_le_eq)
    moreover have "sort_rec f left right a = Some (a, [])"
      using True by (subst sort_rec.simps) simp
    ultimately show ?thesis using less.prems(2) by simp
  next
    case False
    define mid where "mid = (left + right) div 2"
    have md: "left < mid" "mid < right" using False by (simp_all add: mid_def)
    define A where "A = take (nat (mid - left)) M"
    define B where "B = drop (nat (mid - left)) M"
    have M: "M = A @ B" by (simp add: A_def B_def)
    have lA: "int (length A) = mid - left" using md less.prems(5) by (simp add: A_def)
    have lB: "int (length B) = right - mid" using md less.prems(5) lA M by simp
    have a1: "a = P @ A @ (B @ S)" using less.prems(2) M by simp
    from less.IH[OF _ refl a1 less.prems(3,4) lA less.prems(6,7)] md less.prems(1)
    obtain out1 where r1: "sort_rec f left mid a = Some (P @ sort_key f A @ (B @ S), out1)"
      and fr1: "\<forall>s\<in>set out1. frame_sub xs s" by auto
    define a1 where "a1 = (P @ sort_key f A) @ B @ S"
    have lP1: "length (P @ sort_key f A) = nat mid"
      using less.prems(3,4) lA md by simp
    have lx1: "length xs = length a1" using less.prems(6) a1 by (simp add: a1_def)
    have sx1: "set a1 \<subseteq> set xs" using less.prems(7) a1 by (auto simp: a1_def)
    have m0: "0 \<le> mid" using md less.prems(4) by simp
    from less.IH[OF _ refl a1_def lP1 m0 lB lx1 sx1] md less.prems(1)
    obtain out2 where r2: "sort_rec f mid right a1 = Some ((P @ sort_key f A) @ sort_key f B @ S, out2)"
      and fr2: "\<forall>s\<in>set out2. frame_sub xs s" by auto
    define a2 where "a2 = P @ (sort_key f A @ sort_key f B) @ S"
    have lx2: "length xs = length a2" using lx1 by (simp add: a1_def a2_def)
    have sx2: "set a2 \<subseteq> set xs" using sx1 by (auto simp: a1_def a2_def)
    have lA': "int (length (sort_key f A)) = mid - left" using lA by simp
    have lB': "int (length (sort_key f B)) = right - mid" using lB by simp
    from merge_correct[OF a2_def less.prems(3) lA' lB' less.prems(4) lx2 sx2, of f]
    obtain out3 where r3: "merge f left mid right a2 =
        Some (P @ merge_lists f (sort_key f A) (sort_key f B) @ S, out3)"
      and fr3: "\<forall>s\<in>set out3. frame_sub xs s" by auto
    have "sort_rec f left right a = Some (P @ sort_key f M @ S, out1 @ out2 @ out3)"
      using False r1 r2 r3
      by (subst sort_rec.simps)
         (simp add: mid_def[symmetric] a1_def a2_def merge_lists_sort_key M Let_def)
    with fr1 fr2 fr3 show ?thesis by auto
  qed
qed

lemma merge_sort_key_run:
  "\<exists>snaps. merge_sort_key f xs = Some snaps \<and> run_shape xs (sort_key f xs) snaps \<and>
     (\<forall>s\<in>set snaps. frame_sub xs s)"
proof (cases "xs = []")
  case True
  have 1: "merge_sort_key f xs = Some [snap [] [] (Some []) None]"
    using True by (simp add: merge_sort_key_def py_len_def)
  have 2: "\<forall>s\<in>set [snap [] [] (Some []) None]. frame_sub xs s"
    using True frame_perm_sub[OF frame_perm_first[of "[]"]] by simp
  show ?thesis
    apply (rule exI[of _ "[snap [] [] (Some []) None]"])
    using 1 2 True run_shape_single by simp
next
  case False
  define n where "n = int (length xs)"
  have "\<exists>outs. sort_rec f 0 n xs = Some ([] @ sort_key f xs @ [], outs) \<and>
     (\<forall>s\<in>set outs. frame_sub xs s)"
    by (rule sort_rec_correct[where m = "nat (n - 0)"]) (simp_all add: n_def)
  then obtain outs where r: "sort_rec f 0 n xs = Some (sort_key f xs, outs)"
    and fr: "\<forall>s\<in>set outs. frame_sub xs s" by auto
  define snaps where "snaps = [snap xs [] (Some []) None] @ outs @
      [snap (sort_key f xs) [] (Some (py_range 0 n)) None]"
  have 1: "merge_sort_key f xs = Some snaps"
    using False r by (simp add: merge_sort_key_def py_len_def n_def[symmetric] snaps_def)
  have 2: "run_shape xs (sort_key f xs) snaps" unfolding snaps_def by (rule run_shape_full[OF n_def])
  have ms: "mset (sort_key f xs) = mset xs" by simp
  have 3: "\<forall>s\<in>set snaps. frame_sub xs s"
    using fr frame_perm_sub[OF frame_perm_first[of xs]] frame_perm_sub[OF frame_perm_last[OF ms]]
    by (simp add: snaps_def)
  show ?thesis
    apply (rule exI[of _ snaps])
    using 1 2 3 by simp
qed

lemma merge_sort_run:
  "\<exists>a' snaps. merge_sort xs = Some snaps \<and> run_shape xs a' snaps \<and> sorted a' \<and> mset a' = mset xs \<and>
     (\<forall>s\<in>set snaps. frame_sub xs s)"
proof -
  from merge_sort_key_run[of "\<lambda>x. x" xs]
  obtain snaps where "merge_sort xs = Some snaps" "run_shape xs (sort xs) snaps"
    "\<forall>s\<in>set snaps. frame_sub xs s" by (auto simp: merge_sort_def)
  then show ?thesis
    apply -
    apply (rule exI[of _ "sort xs"], rule exI[of _ snaps])
    by simp
qed

section \<open>Quick sort: the partition\<close>

text \<open>Every value inside \<open>[low, high]\<close> of \<open>b\<close> is a value inside \<open>[low, high]\<close> of \<open>a\<close>.\<close>

definition from_inside :: "nat \<Rightarrow> nat \<Rightarrow> 'a list \<Rightarrow> 'a list \<Rightarrow> bool" where
  "from_inside lo hi a b = (\<forall>p. lo \<le> p \<and> p \<le> hi \<longrightarrow> (\<exists>p'. lo \<le> p' \<and> p' \<le> hi \<and> b ! p = a ! p'))"

lemma from_inside_refl: "from_inside lo hi a a"
  by (auto simp: from_inside_def)

lemma from_inside_swap:
  assumes fi: "from_inside lo hi a b" and ij: "lo \<le> i" "i \<le> hi" "lo \<le> j" "j \<le> hi" "hi < length b"
  shows "from_inside lo hi a (swap_at b i j)"
  unfolding from_inside_def
proof (intro allI impI)
  fix p assume p: "lo \<le> p \<and> p \<le> hi"
  have "swap_at b i j ! p = (if p = j then b ! i else if p = i then b ! j else b ! p)"
    using ij p by (simp add: nth_swap_at)
  moreover have "\<exists>p'. lo \<le> p' \<and> p' \<le> hi \<and> b ! q = a ! p'" if "lo \<le> q" "q \<le> hi" for q
    using fi that by (simp add: from_inside_def)
  ultimately show "\<exists>p'. lo \<le> p' \<and> p' \<le> hi \<and> swap_at b i j ! p = a ! p'"
    using ij p by auto
qed

lemma outside_swap:
  assumes "\<forall>k. k < lo \<or> hi < k \<longrightarrow> b ! k = a ! k" "lo \<le> i" "i \<le> hi" "lo \<le> j" "j \<le> hi"
    "hi < length b"
  shows "\<forall>k. k < lo \<or> hi < k \<longrightarrow> swap_at b i j ! k = a ! k"
  using assms by (auto simp: swap_at_def)

lemma quick_scan_loop:
  assumes b: "0 \<le> low" "low < high" "high < int (length a)" and m0: "mset a = mset xs"
    and pv: "pivot = a ! nat high"
  shows "\<exists>a1 i outs. for_range low high (quick_scan pivot high) (a, low) = Some ((a1, i), outs) \<and>
     low \<le> i \<and> i \<le> high \<and> mset a1 = mset xs \<and>
     (\<forall>k. k < nat low \<or> nat high < k \<longrightarrow> a1 ! k = a ! k) \<and>
     from_inside (nat low) (nat high) a a1 \<and> a1 ! nat high = pivot \<and>
     (\<forall>k. nat low \<le> k \<and> k < nat i \<longrightarrow> a1 ! k < pivot) \<and>
     (\<forall>k. nat i \<le> k \<and> k < nat high \<longrightarrow> pivot \<le> a1 ! k) \<and>
     (\<forall>s\<in>set outs. frame_perm xs s)"
proof -
  define I where "I = (\<lambda>j (st :: int list \<times> int) (acc :: int snapshot list).
     low \<le> snd st \<and> snd st \<le> j \<and> mset (fst st) = mset xs \<and>
     (\<forall>k. k < nat low \<or> nat high < k \<longrightarrow> fst st ! k = a ! k) \<and>
     from_inside (nat low) (nat high) a (fst st) \<and> fst st ! nat high = pivot \<and>
     (\<forall>k. nat low \<le> k \<and> k < nat (snd st) \<longrightarrow> fst st ! k < pivot) \<and>
     (\<forall>k. nat (snd st) \<le> k \<and> k < nat j \<longrightarrow> pivot \<le> fst st ! k) \<and>
     (\<forall>s\<in>set acc. frame_perm xs s))"
  have lx: "length xs = length a" using mset_eq_length[OF m0] by simp
  have init: "I low (a, low) []"
    using m0 pv by (simp add: I_def from_inside_refl)
  have step: "\<exists>t1 out. quick_scan pivot high j t = Some (t1, out) \<and> I (j + 1) t1 (acc @ out)"
    if j: "low \<le> j" "j < high" and inv: "I j t acc" for j t acc
  proof -
    obtain c i where t: "t = (c, i)" by (cases t)
    from inv have ib: "low \<le> i" "i \<le> j" and mc: "mset c = mset xs"
      and out: "\<forall>k. k < nat low \<or> nat high < k \<longrightarrow> c ! k = a ! k"
      and fi: "from_inside (nat low) (nat high) a c" and ph: "c ! nat high = pivot"
      and lt: "\<forall>k. nat low \<le> k \<and> k < nat i \<longrightarrow> c ! k < pivot"
      and ge: "\<forall>k. nat i \<le> k \<and> k < nat j \<longrightarrow> pivot \<le> c ! k"
      and fr: "\<forall>s\<in>set acc. frame_perm xs s"
      by (simp_all add: I_def t)
    have lc: "length c = length a" using mset_eq_length[OF mc] lx by simp
    have bj: "0 \<le> j" "j < int (length c)" "0 \<le> i" "i < int (length c)"
      "0 \<le> high" "high < int (length c)"
      using b j ib lc by simp_all
    have nn: "nat low \<le> nat i" "nat i \<le> nat j" "nat j < nat high" "nat high < length c"
      "nat (j + 1) = Suc (nat j)" "nat (i + 1) = Suc (nat i)" "nat low \<le> nat j"
      using b j ib bj by simp_all
    have ni: "nat i < length c" "nat j < length c" using bj by linarith+
    have nr: "nat low \<le> nat i" "nat i \<le> nat high" "nat low \<le> nat j" "nat j \<le> nat high"
      "nat high < length c"
      using b j ib bj by linarith+
    have s1: "frame_perm xs (snap c [j, high] None lbl)" for lbl
      using mc bj lc lx by (intro frame_perm_snap) simp_all
    show ?thesis
    proof (cases "c ! nat j < pivot")
      case True
      let ?c = "swap_at c (nat i) (nat j)"
      have body: "quick_scan pivot high j t =
          Some ((?c, i + 1), [snap c [j, high] None (Some ''compare to pivot''),
                               snap ?c [i, j] None (Some ''swap smaller'')])"
        using True bj by (simp add: quick_scan_def t py_get_in py_swap_in Let_def swap_at_def)
      have m1: "mset ?c = mset xs" using mc mset_swap_at[OF ni] by simp
      have nth: "?c ! k = (if k = nat j then c ! nat i else if k = nat i then c ! nat j else c ! k)"
        if "k < length c" for k using that ni by (simp add: nth_swap_at)
      have o1: "\<forall>k. k < nat low \<or> nat high < k \<longrightarrow> ?c ! k = a ! k"
        using out nr by (intro outside_swap)
      have f1: "from_inside (nat low) (nat high) a ?c"
        using fi nr by (intro from_inside_swap)
      have "nat high \<noteq> nat i" "nat high \<noteq> nat j" using j ib bj by linarith+
      then have p1: "?c ! nat high = pivot" using ph nr(5) by (simp add: nth)
      have l1: "\<forall>k. nat low \<le> k \<and> k < Suc (nat i) \<longrightarrow> ?c ! k < pivot"
      proof (intro allI impI)
        fix k assume k: "nat low \<le> k \<and> k < Suc (nat i)"
        have kl: "k < length c" using k ni by linarith
        show "?c ! k < pivot"
        proof (cases "k = nat i")
          case True
          then show ?thesis using \<open>c ! nat j < pivot\<close> kl by (simp add: nth)
        next
          case False
          then have "k < nat i" using k by simp
          then have "c ! k < pivot" using lt k by simp
          moreover have "k \<noteq> nat j" using \<open>k < nat i\<close> nn(2) by linarith
          ultimately show ?thesis using False kl by (simp add: nth)
        qed
      qed
      have g1: "\<forall>k. Suc (nat i) \<le> k \<and> k < Suc (nat j) \<longrightarrow> pivot \<le> ?c ! k"
      proof (intro allI impI)
        fix k assume k: "Suc (nat i) \<le> k \<and> k < Suc (nat j)"
        have kl: "k < length c" using k ni by linarith
        show "pivot \<le> ?c ! k"
        proof (cases "k = nat j")
          case True
          then have "nat i < nat j" using k by linarith
          then have "pivot \<le> c ! nat i" using ge by blast
          then show ?thesis using True kl by (simp add: nth)
        next
          case False
          then have "pivot \<le> c ! k" using ge k by simp
          moreover have "k \<noteq> nat i" using k by linarith
          ultimately show ?thesis using False kl by (simp add: nth)
        qed
      qed
      have s2: "frame_perm xs (snap ?c [i, j] None (Some ''swap smaller''))"
        using m1 bj lc lx by (intro frame_perm_snap) simp_all
      have "I (j + 1) (?c, i + 1) (acc @ [snap c [j, high] None (Some ''compare to pivot''),
                               snap ?c [i, j] None (Some ''swap smaller'')])"
        using ib m1 o1 f1 p1 l1 g1 fr s1 s2 nn(5,6) by (simp add: I_def)
      with body show ?thesis by blast
    next
      case False
      have body: "quick_scan pivot high j t = Some ((c, i), [snap c [j, high] None (Some ''compare to pivot'')])"
        using False bj by (simp add: quick_scan_def t py_get_in Let_def)
      have g1: "\<forall>k. nat i \<le> k \<and> k < Suc (nat j) \<longrightarrow> pivot \<le> c ! k"
      proof (intro allI impI)
        fix k assume k: "nat i \<le> k \<and> k < Suc (nat j)"
        show "pivot \<le> c ! k"
        proof (cases "k = nat j")
          case True then show ?thesis using False by simp
        next
          case False then show ?thesis using ge k by simp
        qed
      qed
      have "I (j + 1) (c, i) (acc @ [snap c [j, high] None (Some ''compare to pivot'')])"
        using ib mc out fi ph lt g1 fr s1 nn(5) by (simp add: I_def)
      with body show ?thesis by blast
    qed
  qed
  from for_range_total[of I low "(a, low)" high "quick_scan pivot high", OF init step]
  obtain s' outs where r: "for_range low high (quick_scan pivot high) (a, low) = Some (s', outs)"
    and f: "I (max low high) s' outs" by blast
  obtain a1 i where s': "s' = (a1, i)" by (cases s')
  have mx: "max low high = high" using b by simp
  show ?thesis
    apply (rule exI[of _ a1], rule exI[of _ i], rule exI[of _ outs])
    using r f unfolding s' mx I_def by simp
qed


lemma partition_step_correct:
  assumes b: "0 \<le> low" "low < high" "high < int (length a)" and m0: "mset a = mset xs"
  shows "\<exists>a2 i outs. partition_step low high a =
        Some ((a2, i), outs @ [snap a2 [i, high] None (Some ''pivot placed'')]) \<and>
     low \<le> i \<and> i \<le> high \<and> mset a2 = mset xs \<and>
     (\<forall>k. k < nat low \<or> nat high < k \<longrightarrow> a2 ! k = a ! k) \<and>
     from_inside (nat low) (nat high) a a2 \<and> a2 ! nat i = a ! nat high \<and>
     (\<forall>k. nat low \<le> k \<and> k < nat i \<longrightarrow> a2 ! k < a2 ! nat i) \<and>
     (\<forall>k. nat i \<le> k \<and> k \<le> nat high \<longrightarrow> a2 ! nat i \<le> a2 ! k) \<and>
     (\<forall>s\<in>set outs. frame_perm xs s) \<and>
     frame_perm xs (snap a2 [i, high] None (Some ''pivot placed''))"
proof -
  define pivot where "pivot = a ! nat high"
  from quick_scan_loop[OF b m0 pivot_def]
  obtain a1 i outs where r: "for_range low high (quick_scan pivot high) (a, low) = Some ((a1, i), outs)"
    and ib: "low \<le> i" "i \<le> high" and m1: "mset a1 = mset xs"
    and out: "\<forall>k. k < nat low \<or> nat high < k \<longrightarrow> a1 ! k = a ! k"
    and fi: "from_inside (nat low) (nat high) a a1" and ph: "a1 ! nat high = pivot"
    and lt: "\<forall>k. nat low \<le> k \<and> k < nat i \<longrightarrow> a1 ! k < pivot"
    and ge: "\<forall>k. nat i \<le> k \<and> k < nat high \<longrightarrow> pivot \<le> a1 ! k"
    and fr: "\<forall>s\<in>set outs. frame_perm xs s"
    by blast
  have la: "length a1 = length a" using mset_eq_length[OF m1] mset_eq_length[OF m0] by simp
  have lx: "length xs = length a" using mset_eq_length[OF m0] by simp
  have bi: "0 \<le> i" "i < int (length a1)" "0 \<le> high" "high < int (length a1)" "high < int (length a)"
    using b ib la by simp_all
  have ni: "nat i < length a1" "nat high < length a1" using bi by linarith+
  have nr: "nat low \<le> nat i" "nat i \<le> nat high" "nat low \<le> nat high" "nat high \<le> nat high"
    "nat high < length a1"
    using b ib bi by linarith+
  let ?a2 = "swap_at a1 (nat i) (nat high)"
  have nth: "?a2 ! k = (if k = nat high then a1 ! nat i else if k = nat i then a1 ! nat high else a1 ! k)"
    if "k < length a1" for k using that ni by (simp add: nth_swap_at)
  have body: "partition_step low high a =
      Some ((?a2, i), outs @ [snap ?a2 [i, high] None (Some ''pivot placed'')])"
    using r bi by (simp add: partition_step_def py_get_in py_swap_in pivot_def[symmetric] swap_at_def)
  have m2: "mset ?a2 = mset xs" using m1 mset_swap_at[OF ni] by simp
  have o2: "\<forall>k. k < nat low \<or> nat high < k \<longrightarrow> ?a2 ! k = a ! k"
    using out nr by (intro outside_swap)
  have f2: "from_inside (nat low) (nat high) a ?a2"
    using fi nr by (intro from_inside_swap)
  have pi: "?a2 ! nat i = pivot" using ph ni by (simp add: nth)
  have l2: "\<forall>k. nat low \<le> k \<and> k < nat i \<longrightarrow> ?a2 ! k < ?a2 ! nat i"
  proof (intro allI impI)
    fix k assume k: "nat low \<le> k \<and> k < nat i"
    have kl: "k < length a1" "k \<noteq> nat i" "k \<noteq> nat high" using k ni nr by linarith+
    have "a1 ! k < pivot" using lt k by blast
    then show "?a2 ! k < ?a2 ! nat i" unfolding pi using kl by (simp add: nth)
  qed
  have g2: "\<forall>k. nat i \<le> k \<and> k \<le> nat high \<longrightarrow> ?a2 ! nat i \<le> ?a2 ! k"
  proof (intro allI impI)
    fix k assume k: "nat i \<le> k \<and> k \<le> nat high"
    have kl: "k < length a1" using k ni by linarith
    show "?a2 ! nat i \<le> ?a2 ! k"
    proof (cases "k = nat i")
      case True then show ?thesis by simp
    next
      case False
      then have ik: "nat i < nat high" using k by linarith
      show ?thesis
      proof (cases "k = nat high")
        case True
        have "pivot \<le> a1 ! nat i" using ge ik by blast
        then show ?thesis unfolding pi using True kl by (simp add: nth)
      next
        case nh: False
        then have "nat i \<le> k \<and> k < nat high" using k by linarith
        then have "pivot \<le> a1 ! k" using ge by blast
        then show ?thesis unfolding pi using False nh kl by (simp add: nth)
      qed
    qed
  qed
  have fl: "frame_perm xs (snap ?a2 [i, high] None (Some ''pivot placed''))"
    using m2 bi la lx by (intro frame_perm_snap) simp_all
  show ?thesis
    apply (rule exI[of _ ?a2], rule exI[of _ i], rule exI[of _ outs])
    using body ib m2 o2 f2 pi l2 g2 fr fl by (simp add: pivot_def)
qed

section \<open>Quick sort: the stack of pending ranges\<close>

text \<open>Two index ranges \<open>[l, h]\<close> share no index.\<close>

definition range_disj :: "int \<times> int \<Rightarrow> int \<times> int \<Rightarrow> bool" where
  "range_disj r r' = (snd r < fst r \<or> snd r' < fst r' \<or> snd r < fst r' \<or> snd r' < fst r)"

text \<open>Both indices lie in one pending range.\<close>

definition covered :: "(int \<times> int) list \<Rightarrow> nat \<Rightarrow> nat \<Rightarrow> bool" where
  "covered stack p q = (\<exists>r \<in> set stack. fst r \<le> int p \<and> int q \<le> snd r)"

text \<open>The invariant of the loop \<^verbatim>\<open>while stack\<close>: the pending ranges lie inside the array and
  are pairwise disjoint, and two positions that are not in order yet lie in one pending
  range.\<close>

definition stack_inv :: "(int \<times> int) list \<Rightarrow> int list \<Rightarrow> bool" where
  "stack_inv stack a =
     ((\<forall>r \<in> set stack. 0 \<le> fst r \<and> snd r < int (length a)) \<and>
      sorted_wrt range_disj stack \<and>
      (\<forall>p q. p < q \<and> q < length a \<longrightarrow> a ! p \<le> a ! q \<or> covered stack p q))"

lemma stack_inv_empty: "stack_inv [] a \<Longrightarrow> sorted a"
  by (auto simp: stack_inv_def covered_def sorted_iff_nth_mono_less)

lemma stack_inv_init: "stack_inv [(0, int (length a) - 1)] a"
  by (auto simp: stack_inv_def covered_def)

lemma stack_inv_skip:
  assumes "stack_inv (rest @ [(low, high)]) a" "high \<le> low"
  shows "stack_inv rest a"
  unfolding stack_inv_def
proof (intro conjI allI impI)
  show "\<forall>r \<in> set rest. 0 \<le> fst r \<and> snd r < int (length a)"
    using assms(1) by (simp add: stack_inv_def)
  show "sorted_wrt range_disj rest"
    using assms(1) by (simp add: stack_inv_def sorted_wrt_append)
  fix p q assume pq: "p < q \<and> q < length a"
  then have "a ! p \<le> a ! q \<or> covered (rest @ [(low, high)]) p q"
    using assms(1) by (simp add: stack_inv_def)
  moreover have "\<not> (low \<le> int p \<and> int q \<le> high)" using pq assms(2) by linarith
  ultimately show "a ! p \<le> a ! q \<or> covered rest p q"
    by (auto simp: covered_def)
qed

lemma stack_inv_partition:
  assumes inv: "stack_inv (rest @ [(low, high)]) a"
    and b: "0 \<le> low" "low < high" "high < int (length a)" "low \<le> i" "i \<le> high"
    and la: "length a2 = length a"
    and out: "\<forall>k. k < nat low \<or> nat high < k \<longrightarrow> a2 ! k = a ! k"
    and fi: "from_inside (nat low) (nat high) a a2"
    and lt: "\<forall>k. nat low \<le> k \<and> k < nat i \<longrightarrow> a2 ! k < a2 ! nat i"
    and ge: "\<forall>k. nat i \<le> k \<and> k \<le> nat high \<longrightarrow> a2 ! nat i \<le> a2 ! k"
  shows "stack_inv (rest @ [(low, i - 1), (i + 1, high)]) a2"
proof -
  from inv have rb: "\<forall>r \<in> set rest. 0 \<le> fst r \<and> snd r < int (length a)"
    and sw: "sorted_wrt range_disj rest"
    and dj: "\<forall>r \<in> set rest. range_disj r (low, high)"
    and oc: "\<And>p q. p < q \<Longrightarrow> q < length a \<Longrightarrow> a ! p \<le> a ! q \<or> covered (rest @ [(low, high)]) p q"
    by (auto simp: stack_inv_def sorted_wrt_append)
  have inr: "\<not> covered rest p q" if "low \<le> int p \<and> int p \<le> high \<or> low \<le> int q \<and> int q \<le> high"
    "p < q" for p q
  proof
    assume "covered rest p q"
    then obtain r where r: "r \<in> set rest" "fst r \<le> int p" "int q \<le> snd r"
      by (auto simp: covered_def)
    from dj r(1) have "range_disj r (low, high)" by blast
    with r that b show False by (auto simp: range_disj_def)
  qed
  have in_range: "low \<le> int p \<and> int p \<le> high \<longleftrightarrow> nat low \<le> p \<and> p \<le> nat high" for p
    using b by linarith
  have c1: "\<forall>r \<in> set (rest @ [(low, i - 1), (i + 1, high)]). 0 \<le> fst r \<and> snd r < int (length a2)"
    using rb b la by auto
  have c2: "sorted_wrt range_disj (rest @ [(low, i - 1), (i + 1, high)])"
    using sw dj b by (auto simp: sorted_wrt_append range_disj_def)
  have c3: "a2 ! p \<le> a2 ! q \<or> covered (rest @ [(low, i - 1), (i + 1, high)]) p q"
    if pq: "p < q" "q < length a2" for p q
  proof (cases "covered rest p q")
    case True
    then show ?thesis by (auto simp: covered_def)
  next
    case nc: False
    have ql: "q < length a" "p < length a" using pq la by simp_all
    consider (both) "nat low \<le> p" "q \<le> nat high"
      | (none) "(p < nat low \<or> nat high < p)" "(q < nat low \<or> nat high < q)"
      | (pin) "nat low \<le> p" "p \<le> nat high" "nat high < q"
      | (qin) "p < nat low" "nat low \<le> q" "q \<le> nat high"
      using pq by linarith
    then show ?thesis
    proof cases
      case both
      consider "q < nat i" | "nat i < p" | "p \<le> nat i" "nat i \<le> q" by linarith
      then show ?thesis
      proof cases
        case 1
        then have "low \<le> int p \<and> int q \<le> i - 1" using both b by linarith
        then show ?thesis by (auto simp: covered_def)
      next
        case 2
        then have "i + 1 \<le> int p \<and> int q \<le> high" using both b by linarith
        then show ?thesis by (auto simp: covered_def)
      next
        case 3
        have "a2 ! p \<le> a2 ! nat i"
        proof (cases "p = nat i")
          case True then show ?thesis by simp
        next
          case False
          then have "nat low \<le> p \<and> p < nat i" using 3 both by linarith
          then show ?thesis using lt by (simp add: less_imp_le)
        qed
        moreover have "a2 ! nat i \<le> a2 ! q" using ge 3 both by blast
        ultimately show ?thesis by simp
      qed
    next
      case none
      then have e: "a2 ! p = a ! p" "a2 ! q = a ! q" using out by blast+
      have "\<not> (low \<le> int p \<and> int q \<le> high)" using none pq b by linarith
      with oc[OF pq(1) ql(1)] nc have "a ! p \<le> a ! q" by (auto simp: covered_def)
      then show ?thesis using e by simp
    next
      case pin
      then obtain p' where p': "nat low \<le> p'" "p' \<le> nat high" "a2 ! p = a ! p'"
        using fi by (auto simp: from_inside_def)
      have e: "a2 ! q = a ! q" using out pin by blast
      have lt': "p' < q" using p' pin by linarith
      have "\<not> covered rest p' q" using p' lt' in_range[of p'] by (intro inr) simp_all
      moreover have "\<not> (low \<le> int p' \<and> int q \<le> high)" using pin b by linarith
      ultimately have "a ! p' \<le> a ! q" using oc[OF lt' ql(1)] by (auto simp: covered_def)
      then show ?thesis using e p' by simp
    next
      case qin
      then obtain q' where q': "nat low \<le> q'" "q' \<le> nat high" "a2 ! q = a ! q'"
        using fi by (auto simp: from_inside_def)
      have e: "a2 ! p = a ! p" using out qin by blast
      have lt': "p < q'" using q' qin by linarith
      have q'l: "q' < length a" using q' b by linarith
      have "\<not> covered rest p q'" using q' lt' in_range[of q'] by (intro inr) simp_all
      moreover have "\<not> (low \<le> int p \<and> int q' \<le> high)" using qin b by linarith
      ultimately have "a ! p \<le> a ! q'" using oc[OF lt' q'l] by (auto simp: covered_def)
      then show ?thesis using e q' by simp
    qed
  qed
  show ?thesis unfolding stack_inv_def using c1 c2 c3 by blast
qed

lemma quick_loop_correct:
  "m = sum_list (map range_weight stack) \<Longrightarrow> mset a = mset xs \<Longrightarrow> stack_inv stack a \<Longrightarrow>
   \<exists>a' outs. quick_loop stack a = Some (a', outs) \<and> sorted a' \<and> mset a' = mset xs \<and>
     (\<forall>s\<in>set outs. frame_perm xs s)"
proof (induction m arbitrary: stack a rule: less_induct)
  case (less m)
  show ?case
  proof (cases "stack = []")
    case True
    have "quick_loop stack a = Some (a, [])" using True by (subst quick_loop.simps) simp
    moreover have "sorted a" using less.prems(3) True by (simp add: stack_inv_empty)
    ultimately show ?thesis using less.prems(2) by simp
  next
    case False
    obtain low high where lh: "last stack = (low, high)" by (cases "last stack")
    define rest where "rest = butlast stack"
    have st: "stack = rest @ [(low, high)]"
      using False lh by (simp add: rest_def flip: lh)
    have w: "sum_list (map range_weight stack) = sum_list (map range_weight rest) + range_weight (low, high)"
      by (simp add: st)
    show ?thesis
    proof (cases "low \<ge> high")
      case True
      have inv: "stack_inv rest a" using less.prems(3) True unfolding st by (rule stack_inv_skip)
      have "0 < range_weight (low, high)" by (simp add: range_weight_def)
      then have "sum_list (map range_weight rest) < m"
        using less.prems(1) w by linarith
      from less.IH[OF this refl less.prems(2) inv]
      obtain a' outs where r: "quick_loop rest a = Some (a', outs)"
        and res: "sorted a'" "mset a' = mset xs" "\<forall>s\<in>set outs. frame_perm xs s" by blast
      have "quick_loop stack a = Some (a', outs)"
        using False lh True r by (subst quick_loop.simps) (simp add: rest_def)
      with res show ?thesis by simp
    next
      case lt: False
      have rb: "0 \<le> low" "high < int (length a)"
        using less.prems(3) by (auto simp: stack_inv_def st)
      have b: "0 \<le> low" "low < high" "high < int (length a)" using rb lt by simp_all
      from partition_step_correct[OF b less.prems(2)]
      obtain a2 i out1 where p: "partition_step low high a =
            Some ((a2, i), out1 @ [snap a2 [i, high] None (Some ''pivot placed'')])"
        and ib: "low \<le> i" "i \<le> high" and m2: "mset a2 = mset xs"
        and out: "\<forall>k. k < nat low \<or> nat high < k \<longrightarrow> a2 ! k = a ! k"
        and fi: "from_inside (nat low) (nat high) a a2"
        and ltp: "\<forall>k. nat low \<le> k \<and> k < nat i \<longrightarrow> a2 ! k < a2 ! nat i"
        and gep: "\<forall>k. nat i \<le> k \<and> k \<le> nat high \<longrightarrow> a2 ! nat i \<le> a2 ! k"
        and fr1: "\<forall>s\<in>set out1. frame_perm xs s"
        and fl: "frame_perm xs (snap a2 [i, high] None (Some ''pivot placed''))"
        by blast
      have la: "length a2 = length a"
        using mset_eq_length[OF m2] mset_eq_length[OF less.prems(2)] by simp
      define stack2 where "stack2 = rest @ [(low, i - 1), (i + 1, high)]"
      have inv2: "stack_inv stack2 a2"
        unfolding stack2_def
        using less.prems(3)[unfolded st] b ib la out fi ltp gep by (rule stack_inv_partition)
      have "range_weight (low, i - 1) + range_weight (i + 1, high) < range_weight (low, high)"
        using ib unfolding range_weight_def by simp
      moreover have "sum_list (map range_weight stack2) =
          sum_list (map range_weight rest) + (range_weight (low, i - 1) + range_weight (i + 1, high))"
        by (simp add: stack2_def)
      ultimately have "sum_list (map range_weight stack2) < m"
        using less.prems(1) w by linarith
      from less.IH[OF this refl m2 inv2]
      obtain a' out2 where r: "quick_loop stack2 a2 = Some (a', out2)"
        and res: "sorted a'" "mset a' = mset xs" "\<forall>s\<in>set out2. frame_perm xs s" by blast
      have "quick_loop stack a =
          Some (a', (out1 @ [snap a2 [i, high] None (Some ''pivot placed'')]) @ out2)"
        using False lh lt p r
        by (subst quick_loop.simps) (simp add: rest_def[symmetric] stack2_def[symmetric])
      with res fr1 fl show ?thesis by auto
    qed
  qed
qed

lemma quick_sort_run:
  "\<exists>a' snaps. quick_sort xs = Some snaps \<and> run_shape xs a' snaps \<and> sorted a' \<and> mset a' = mset xs \<and>
     (\<forall>s\<in>set snaps. frame_perm xs s)"
proof (cases "xs = []")
  case True
  have 1: "quick_sort xs = Some [snap [] [] (Some []) None]"
    using True by (simp add: quick_sort_def py_len_def)
  have 2: "\<forall>s\<in>set [snap [] [] (Some []) None]. frame_perm xs s"
    using True frame_perm_first[of "[]"] by simp
  show ?thesis
    apply (rule exI[of _ "[]"], rule exI[of _ "[snap [] [] (Some []) None]"])
    using 1 2 True run_shape_single by simp
next
  case False
  define n where "n = int (length xs)"
  have "stack_inv [(0, n - 1)] xs" unfolding n_def by (rule stack_inv_init)
  from quick_loop_correct[OF refl refl this]
  obtain b' outs where r: "quick_loop [(0, n - 1)] xs = Some (b', outs)"
    and res: "sorted b'" "mset b' = mset xs" "\<forall>s\<in>set outs. frame_perm xs s" by blast
  define snaps where "snaps = [snap xs [] (Some []) None] @ outs @ [snap b' [] (Some (py_range 0 n)) None]"
  have 1: "quick_sort xs = Some snaps"
    using False r by (simp add: quick_sort_def py_len_def n_def[symmetric] snaps_def)
  have 2: "run_shape xs b' snaps" unfolding snaps_def by (rule run_shape_full[OF n_def])
  have 3: "\<forall>s\<in>set snaps. frame_perm xs s"
    using res(3) frame_perm_first[of xs] frame_perm_last[OF res(2)] by (simp add: snaps_def)
  show ?thesis
    apply (rule exI[of _ b'], rule exI[of _ snaps])
    using 1 2 3 res by simp
qed

section \<open>Complete runs\<close>

lemma run_shape_last: "run_shape xs a' snaps \<Longrightarrow> array (last snaps) = a'"
  by (simp add: run_shape_def snap_def)

lemma run_shape_hd: "run_shape xs a' snaps \<Longrightarrow> hd snaps = snap xs [] (Some []) None"
  by (simp add: run_shape_def)

lemma frame_sub_length: "frame_sub xs s \<Longrightarrow> length (array s) = length xs"
  by (simp add: frame_sub_def)

lemma frame_sub_active: "frame_sub xs s \<Longrightarrow> k \<in> set (active s) \<Longrightarrow> 0 \<le> k \<and> k < int (length xs)"
  by (simp add: frame_sub_def)

lemma frame_perm_mset: "frame_perm xs s \<Longrightarrow> mset (array s) = mset xs"
  by (simp add: frame_perm_def)

text \<open>The five generators, for statements about all of them.\<close>

definition generators :: "(int list \<Rightarrow> int snapshot list option) list" where
  "generators = [bubble_sort, selection_sort, insertion_sort, merge_sort, quick_sort]"

lemma generator_run:
  assumes "alg \<in> set generators"
  shows "\<exists>a' snaps. alg xs = Some snaps \<and> run_shape xs a' snaps \<and> sorted a' \<and> mset a' = mset xs \<and>
     (\<forall>s\<in>set snaps. frame_sub xs s)"
proof -
  have sub: "\<forall>s\<in>set snaps. frame_perm xs s \<Longrightarrow> \<forall>s\<in>set snaps. frame_sub xs s" for snaps
    by (blast intro: frame_perm_sub)
  consider "alg = bubble_sort" | "alg = selection_sort" | "alg = insertion_sort"
    | "alg = merge_sort" | "alg = quick_sort"
    using assms by (auto simp: generators_def)
  then show ?thesis
  proof cases
    case 1 then show ?thesis using bubble_sort_run[of xs] sub by blast
  next
    case 2 then show ?thesis using selection_sort_run[of xs] sub by blast
  next
    case 3 then show ?thesis using insertion_sort_run[of xs] by blast
  next
    case 4 then show ?thesis using merge_sort_run[of xs] by blast
  next
    case 5 then show ?thesis using quick_sort_run[of xs] sub by blast
  qed
qed

section \<open>Quick sort: the frames of a run, partition by partition\<close>

lemma partition_step_first_frame:
  assumes p: "partition_step low high a = Some ((a', i), outs)" and lt: "low < high"
  shows "outs \<noteq> [] \<and> hd outs = snap a [low, high] None (Some ''compare to pivot'')"
proof -
  from p obtain pivot a1 out1 where
    r: "for_range low high (quick_scan pivot high) (a, low) = Some ((a1, i), out1)"
    and o: "outs = out1 @ [snap a' [i, high] None (Some ''pivot placed'')]"
    by (auto simp: partition_step_def bind_eq_Some_conv)
  from r lt obtain t1 o1 o2 where b: "quick_scan pivot high low (a, low) = Some (t1, o1)"
    and o1: "out1 = o1 @ o2"
    by (subst (asm) for_range.simps) (auto simp: bind_eq_Some_conv)
  from b have "o1 \<noteq> [] \<and> hd o1 = snap a [low, high] None (Some ''compare to pivot'')"
    by (auto simp: quick_scan_def Let_def bind_eq_Some_conv split: if_splits)
  then show ?thesis using o o1 by simp
qed

lemma partition_step_scan_labels:
  assumes p: "partition_step low high a = Some ((a', i), outs)"
  shows "\<forall>s\<in>set (butlast outs). label s = Some ''compare to pivot'' \<or> label s = Some ''swap smaller''"
proof -
  from p obtain pivot a1 out1 where
    r: "for_range low high (quick_scan pivot high) (a, low) = Some ((a1, i), out1)"
    and o: "outs = out1 @ [snap a' [i, high] None (Some ''pivot placed'')]"
    by (auto simp: partition_step_def bind_eq_Some_conv)
  have "(\<lambda>j (st :: int list \<times> int) acc.
      \<forall>s\<in>set acc. label s = Some ''compare to pivot'' \<or> label s = Some ''swap smaller'')
      (max low high) (a1, i) out1"
    by (rule for_range_partial[OF r])
       (auto simp: quick_scan_def Let_def snap_def bind_eq_Some_conv split: if_splits)
  then show ?thesis using o by simp
qed

text \<open>
  The frames of one partition of the run: what \<open>partition_step\<close> yields on a popped range
  \<open>[low, high]\<close> with \<open>low < high\<close> inside the array \<open>a\<close>. They begin with the comparison of
  \<open>a[low]\<close> to the pivot, on the array \<open>a\<close> as it was popped, and end with the
  \<^verbatim>\<open>'pivot placed'\<close> frame, in whose array \<open>a'\<close> the pivot \<open>a[high]\<close> stands at \<open>i\<close>, the
  positions \<open>[low, i)\<close> hold smaller values and the positions \<open>[i, high]\<close> hold values that
  are not smaller. No frame before the last one carries the label \<^verbatim>\<open>'pivot placed'\<close>.
\<close>

definition partition_segment :: "int snapshot list \<Rightarrow> bool" where
  "partition_segment seg =
     (\<exists>low high a a' i.
        0 \<le> low \<and> low < high \<and> high < int (length a) \<and>
        partition_step low high a = Some ((a', i), seg) \<and> seg \<noteq> [] \<and>
        hd seg = snap a [low, high] None (Some ''compare to pivot'') \<and>
        last seg = snap a' [i, high] None (Some ''pivot placed'') \<and>
        (\<forall>s\<in>set (butlast seg). label s \<noteq> Some ''pivot placed'') \<and>
        low \<le> i \<and> i \<le> high \<and> a' ! nat i = a ! nat high \<and>
        (\<forall>k. low \<le> k \<and> k < i \<longrightarrow> a' ! nat k < a' ! nat i) \<and>
        (\<forall>k. i \<le> k \<and> k \<le> high \<longrightarrow> a' ! nat i \<le> a' ! nat k))"

lemma partition_segmentI:
  assumes inv: "stack_inv (rest @ [(low, high)]) a" and lt: "low < high"
  shows "\<exists>a2 i seg. partition_step low high a = Some ((a2, i), seg) \<and> partition_segment seg \<and>
     mset a2 = mset a \<and> low \<le> i \<and> i \<le> high \<and>
     stack_inv (rest @ [(low, i - 1), (i + 1, high)]) a2"
proof -
  have b: "0 \<le> low" "low < high" "high < int (length a)"
    using inv lt by (auto simp: stack_inv_def)
  from partition_step_correct[OF b refl]
  obtain a2 i out1 where p: "partition_step low high a =
        Some ((a2, i), out1 @ [snap a2 [i, high] None (Some ''pivot placed'')])"
    and ib: "low \<le> i" "i \<le> high" and m2: "mset a2 = mset a"
    and out: "\<forall>k. k < nat low \<or> nat high < k \<longrightarrow> a2 ! k = a ! k"
    and fi: "from_inside (nat low) (nat high) a a2"
    and pv: "a2 ! nat i = a ! nat high"
    and ltp: "\<forall>k. nat low \<le> k \<and> k < nat i \<longrightarrow> a2 ! k < a2 ! nat i"
    and gep: "\<forall>k. nat i \<le> k \<and> k \<le> nat high \<longrightarrow> a2 ! nat i \<le> a2 ! k"
    by blast
  define seg where "seg = out1 @ [snap a2 [i, high] None (Some ''pivot placed'')]"
  have p': "partition_step low high a = Some ((a2, i), seg)" using p by (simp add: seg_def)
  have la: "length a2 = length a" using m2 by (rule mset_eq_length)
  have inv2: "stack_inv (rest @ [(low, i - 1), (i + 1, high)]) a2"
    using inv b ib la out fi ltp gep by (rule stack_inv_partition)
  have l1: "\<forall>k. low \<le> k \<and> k < i \<longrightarrow> a2 ! nat k < a2 ! nat i"
  proof (intro allI impI)
    fix k :: int assume "low \<le> k \<and> k < i"
    then have "nat low \<le> nat k \<and> nat k < nat i" using b by linarith
    then show "a2 ! nat k < a2 ! nat i" using ltp by blast
  qed
  have g1: "\<forall>k. i \<le> k \<and> k \<le> high \<longrightarrow> a2 ! nat i \<le> a2 ! nat k"
  proof (intro allI impI)
    fix k :: int assume "i \<le> k \<and> k \<le> high"
    then have "nat i \<le> nat k \<and> nat k \<le> nat high" using b ib by linarith
    then show "a2 ! nat i \<le> a2 ! nat k" using gep by blast
  qed
  have hd: "seg \<noteq> [] \<and> hd seg = snap a [low, high] None (Some ''compare to pivot'')"
    using p' lt by (rule partition_step_first_frame)
  have ls: "last seg = snap a2 [i, high] None (Some ''pivot placed'')" by (simp add: seg_def)
  have "\<forall>s\<in>set (butlast seg). label s = Some ''compare to pivot'' \<or> label s = Some ''swap smaller''"
    using p' by (rule partition_step_scan_labels)
  then have lb: "\<forall>s\<in>set (butlast seg). label s \<noteq> Some ''pivot placed''" by auto
  have "partition_segment seg"
    unfolding partition_segment_def
    apply (rule exI[of _ low], rule exI[of _ high], rule exI[of _ a], rule exI[of _ a2], rule exI[of _ i])
    using b p' hd ls lb ib pv l1 g1 by simp
  with p' m2 ib inv2 show ?thesis by blast
qed

lemma quick_loop_segments:
  "m = sum_list (map range_weight stack) \<Longrightarrow> stack_inv stack a \<Longrightarrow>
   \<exists>a' segs. quick_loop stack a = Some (a', concat segs) \<and> (\<forall>seg\<in>set segs. partition_segment seg)"
proof (induction m arbitrary: stack a rule: less_induct)
  case (less m)
  show ?case
  proof (cases "stack = []")
    case True
    have "quick_loop stack a = Some (a, concat [])" using True by (subst quick_loop.simps) simp
    then show ?thesis by (metis empty_iff list.set(1))
  next
    case False
    obtain low high where lh: "last stack = (low, high)" by (cases "last stack")
    define rest where "rest = butlast stack"
    have st: "stack = rest @ [(low, high)]"
      using False lh by (simp add: rest_def flip: lh)
    have w: "sum_list (map range_weight stack) = sum_list (map range_weight rest) + range_weight (low, high)"
      by (simp add: st)
    show ?thesis
    proof (cases "low \<ge> high")
      case True
      have inv: "stack_inv rest a" using less.prems(2) True unfolding st by (rule stack_inv_skip)
      have "0 < range_weight (low, high)" by (simp add: range_weight_def)
      then have "sum_list (map range_weight rest) < m"
        using less.prems(1) w by linarith
      from less.IH[OF this refl inv]
      obtain a' segs where r: "quick_loop rest a = Some (a', concat segs)"
        and res: "\<forall>seg\<in>set segs. partition_segment seg" by blast
      have "quick_loop stack a = Some (a', concat segs)"
        using False lh True r by (subst quick_loop.simps) (simp add: rest_def)
      with res show ?thesis by blast
    next
      case lt: False
      then have lt': "low < high" by simp
      from partition_segmentI[OF less.prems(2)[unfolded st] lt']
      obtain a2 i seg where p: "partition_step low high a = Some ((a2, i), seg)"
        and ps: "partition_segment seg" and ib: "low \<le> i" "i \<le> high"
        and inv2: "stack_inv (rest @ [(low, i - 1), (i + 1, high)]) a2" by blast
      define stack2 where "stack2 = rest @ [(low, i - 1), (i + 1, high)]"
      have "range_weight (low, i - 1) + range_weight (i + 1, high) < range_weight (low, high)"
        using ib unfolding range_weight_def by simp
      moreover have "sum_list (map range_weight stack2) =
          sum_list (map range_weight rest) + (range_weight (low, i - 1) + range_weight (i + 1, high))"
        by (simp add: stack2_def)
      ultimately have "sum_list (map range_weight stack2) < m"
        using less.prems(1) w by linarith
      from less.IH[OF this refl inv2[folded stack2_def]]
      obtain a' segs where r: "quick_loop stack2 a2 = Some (a', concat segs)"
        and res: "\<forall>seg\<in>set segs. partition_segment seg" by blast
      have "quick_loop stack a = Some (a', concat (seg # segs))"
        using False lh lt p r
        by (subst quick_loop.simps) (simp add: rest_def[symmetric] stack2_def[symmetric])
      moreover have "\<forall>s\<in>set (seg # segs). partition_segment s" using ps res by simp
      ultimately show ?thesis by blast
    qed
  qed
qed

section \<open>Insertion sort: the frames of a run, insertion by insertion\<close>

lemma take_eq_le: "take k x = take k y \<Longrightarrow> m \<le> k \<Longrightarrow> take m x = take m y"
  by (metis min.absorb1 take_take)

lemma drop_eq_ge: "drop k x = drop k y \<Longrightarrow> k \<le> m \<Longrightarrow> drop m x = drop m y"
  by (metis drop_drop le_add_diff_inverse2)

lemma py_get_SomeD: "py_get a i = Some x \<Longrightarrow> 0 \<le> i \<Longrightarrow> i < int (length a) \<and> x = a ! nat i"
  by (auto simp: py_get_def py_index_def py_len_def Let_def split: if_splits option.splits)

lemma py_set_SomeD: "py_set a i v = Some a1 \<Longrightarrow> 0 \<le> i \<Longrightarrow> i < int (length a) \<and> a1 = a[nat i := v]"
  by (auto simp: py_set_def py_index_def py_len_def Let_def split: if_splits option.splits)

text \<open>
  The shift loop started at \<open>j\<close> writes the positions \<open>j + 1, j, \<dots>, j' + 2\<close>, from right to
  left. A frame it yields therefore agrees with the array at the start of the loop on a
  prefix and with the array at the end of the loop on the rest.
\<close>

lemma insertion_shift_frames:
  "h = nat (j + 1) \<Longrightarrow> - 1 \<le> j \<Longrightarrow> insertion_shift n i key j a = Some ((a', j'), outs) \<Longrightarrow>
   length a' = length a \<and> - 1 \<le> j' \<and> j' \<le> j \<and>
   drop (nat (j + 2)) a' = drop (nat (j + 2)) a \<and>
   (outs = [] \<and> a' = a \<and> j' = j \<or> outs \<noteq> [] \<and> array (hd outs) = a \<and> j + 1 < int (length a)) \<and>
   (\<forall>s\<in>set outs. \<exists>k. nat (j' + 2) \<le> k \<and> k \<le> nat (j + 2) \<and> array s = take k a @ drop k a')"
proof (induction h arbitrary: j a outs)
  case 0
  then have j: "j = - 1" by simp
  have "insertion_shift n i key j a = Some ((a, j), [])"
    using j by (subst insertion_shift.simps) simp
  with 0 show ?case by simp
next
  case (Suc h)
  have j0: "0 \<le> j" using Suc.prems(1) by linarith
  have nj: "nat j = h" "nat (j + 1) = Suc h" "nat (j + 2) = Suc (Suc h)" "nat (j - 1 + 2) = Suc h"
    using Suc.prems(1) j0 by simp_all
  note r = Suc.prems(3)
  from r j0 obtain x where x: "py_get a j = Some x"
    by (subst (asm) insertion_shift.simps) (auto simp: bind_eq_Some_conv)
  from py_get_SomeD[OF x j0] have xj: "j < int (length a)" "x = a ! h" using nj by simp_all
  show ?case
  proof (cases "x > key")
    case False
    have "insertion_shift n i key j a = Some ((a, j), [])"
      using False j0 x by (subst insertion_shift.simps) simp
    with r Suc.prems(2) show ?thesis by simp
  next
    case True
    let ?s1 = "snap a [j, j + 1] (Some (py_range (i + 1) n)) None"
    from r True j0 x obtain a1 out1 where s: "py_set a (j + 1) x = Some a1"
      and r1: "insertion_shift n i key (j - 1) a1 = Some ((a', j'), out1)"
      and o: "outs = ?s1 # snap a1 [j - 1 + 1] (Some (py_range (i + 1) n)) None # out1"
      by (subst (asm) insertion_shift.simps) (auto simp: bind_eq_Some_conv Let_def)
    have j1: "0 \<le> j + 1" using j0 by simp
    from py_set_SomeD[OF s j1] have b: "j + 1 < int (length a)" and a1: "a1 = a[Suc h := x]"
      using nj by simp_all
    have hb: "Suc h < length a" using b nj by linarith
    have h1: "h = nat (j - 1 + 1)" using nj by simp
    have jm: "- 1 \<le> j - 1" using j0 by simp
    from Suc.IH[OF h1 jm r1]
    have l: "length a' = length a1" and jb: "- 1 \<le> j'" "j' \<le> j - 1"
      and d: "drop (Suc h) a' = drop (Suc h) a1"
      and fr: "\<forall>s\<in>set out1. \<exists>k. nat (j' + 2) \<le> k \<and> k \<le> Suc h \<and> array s = take k a1 @ drop k a'"
      using nj by simp_all
    have la: "length a' = length a" using l a1 by simp
    have d1: "drop (Suc (Suc h)) a1 = drop (Suc (Suc h)) a" unfolding a1 by simp
    have d2: "drop (Suc (Suc h)) a' = drop (Suc (Suc h)) a"
      using drop_eq_ge[OF d, of "Suc (Suc h)"] d1 by simp
    have t1: "take k a1 = take k a" if "k \<le> Suc h" for k
      unfolding a1 using that by simp
    have jk: "nat (j' + 2) \<le> Suc h" using jb nj by linarith
    have f1: "array ?s1 = take (Suc (Suc h)) a @ drop (Suc (Suc h)) a'"
      unfolding d2 by (simp add: snap_def)
    have f2: "array (snap a1 [j - 1 + 1] (Some (py_range (i + 1) n)) None) = take (Suc h) a @ drop (Suc h) a'"
      unfolding d t1[OF le_refl, symmetric] by (simp add: snap_def)
    have f3: "\<forall>s\<in>set out1. \<exists>k. nat (j' + 2) \<le> k \<and> k \<le> Suc (Suc h) \<and> array s = take k a @ drop k a'"
    proof
      fix s assume "s \<in> set out1"
      with fr obtain k where k: "nat (j' + 2) \<le> k" "k \<le> Suc h" "array s = take k a1 @ drop k a'"
        by blast
      then have "array s = take k a @ drop k a'" using t1 by simp
      with k show "\<exists>k. nat (j' + 2) \<le> k \<and> k \<le> Suc (Suc h) \<and> array s = take k a @ drop k a'"
        by (intro exI[of _ k]) simp
    qed
    have all: "\<forall>s\<in>set outs. \<exists>k. nat (j' + 2) \<le> k \<and> k \<le> Suc (Suc h) \<and> array s = take k a @ drop k a'"
      unfolding o using f1 f2 f3 jk
      by (metis (no_types, lifting) le_SucI le_refl set_ConsD)
    have hd: "outs \<noteq> [] \<and> array (hd outs) = a" unfolding o by (simp add: snap_def)
    show ?thesis using la jb d2 hd all b nj by simp
  qed
qed

text \<open>
  The frames of one insertion: what the body of \<^verbatim>\<open>for i in range(1, n)\<close> yields for one
  \<open>i\<close>, started on the array \<open>a\<close> and ending on the array \<open>a'\<close>. Both are permutations of
  the input \<open>xs\<close>; the first frame shows \<open>a\<close> and the last one, yielded after
  \<^verbatim>\<open>a[j + 1] = key\<close>, shows \<open>a'\<close>. A frame in between is yielded while \<^verbatim>\<open>key\<close> is held in
  a local variable only: it agrees with \<open>a\<close> on a prefix and with \<open>a'\<close> on the rest.
\<close>

definition insertion_segment :: "int list \<Rightarrow> int snapshot list \<Rightarrow> bool" where
  "insertion_segment xs seg =
     (\<exists>i a a'.
        1 \<le> i \<and> i < py_len xs \<and> insertion_body (py_len xs) i a = Some (a', seg) \<and>
        mset a = mset xs \<and> mset a' = mset xs \<and>
        seg \<noteq> [] \<and> array (hd seg) = a \<and> array (last seg) = a' \<and>
        (\<forall>s\<in>set seg. \<exists>k. array s = take k a @ drop k a'))"

lemma insertion_body_segment:
  assumes n: "n = int (length xs)" and i: "1 \<le> i" "i < n" and m0: "mset a = mset xs"
    and so: "sorted (take (nat i) a)"
  shows "\<exists>a2 seg. insertion_body n i a = Some (a2, seg) \<and> mset a2 = mset xs \<and>
     sorted (take (nat (i + 1)) a2) \<and> insertion_segment xs seg"
proof -
  from insertion_body_correct[OF n i m0 so]
  obtain a2 seg where body: "insertion_body n i a = Some (a2, seg)" and m2: "mset a2 = mset xs"
    and s2: "sorted (take (nat (i + 1)) a2)" by blast
  have la: "length a = length xs" using m0 by (rule mset_eq_length)
  have bi: "0 \<le> i" "i < int (length a)" using i n la by simp_all
  define key where "key = a ! nat i"
  from body obtain a1 j out1 where
    r: "insertion_shift n i key (i - 1) a = Some ((a1, j), out1)"
    and w: "py_set a1 (j + 1) key = Some a2"
    and sg: "seg = out1 @ [snap a2 [j + 1] (Some (py_range (i + 1) n)) None]"
    using bi by (auto simp: insertion_body_def py_get_in key_def bind_eq_Some_conv)
  have i1: "- 1 \<le> i - 1" using i by simp
  from insertion_shift_frames[OF refl i1 r]
  have l1: "length a1 = length a" and jb: "- 1 \<le> j" "j \<le> i - 1"
    and fst: "out1 = [] \<and> a1 = a \<and> j = i - 1 \<or> out1 \<noteq> [] \<and> array (hd out1) = a"
    and fr: "\<forall>s\<in>set out1. \<exists>k. nat (j + 2) \<le> k \<and> k \<le> nat (i - 1 + 2) \<and> array s = take k a @ drop k a1"
    by blast+
  have j1: "0 \<le> j + 1" using jb by simp
  from py_set_SomeD[OF w j1] have a2: "a2 = a1[nat (j + 1) := key]" by simp
  have dk: "drop k a2 = drop k a1" if "nat (j + 2) \<le> k" for k
  proof -
    have "nat (j + 1) < k" using that jb by linarith
    then show ?thesis unfolding a2 by simp
  qed
  have hd: "array (hd seg) = a"
  proof (cases "out1 = []")
    case True
    with fst have e: "a1 = a" "j = i - 1" by simp_all
    have "a2 = a" unfolding a2 e by (simp add: key_def)
    with True sg show ?thesis by (simp add: snap_def)
  next
    case False
    with fst sg show ?thesis by simp
  qed
  have ls: "array (last seg) = a2" using sg by (simp add: snap_def)
  have all: "\<forall>s\<in>set seg. \<exists>k. array s = take k a @ drop k a2"
  proof
    fix s assume "s \<in> set seg"
    then consider "s \<in> set out1" | "s = snap a2 [j + 1] (Some (py_range (i + 1) n)) None"
      using sg by auto
    then show "\<exists>k. array s = take k a @ drop k a2"
    proof cases
      case 1
      with fr obtain k where "nat (j + 2) \<le> k" "array s = take k a @ drop k a1" by blast
      then have "array s = take k a @ drop k a2" using dk by simp
      then show ?thesis ..
    next
      case 2
      then have "array s = take 0 a @ drop 0 a2" by (simp add: snap_def)
      then show ?thesis ..
    qed
  qed
  have ne: "seg \<noteq> []" using sg by simp
  have "insertion_segment xs seg"
    unfolding insertion_segment_def
    apply (rule exI[of _ i], rule exI[of _ a], rule exI[of _ a2])
    using i n body m0 m2 ne hd ls all by (simp add: py_len_def)
  with body m2 s2 show ?thesis by blast
qed

lemma insertion_sort_segments:
  "\<exists>a' segs. insertion_sort xs =
       Some (snap xs [] (Some []) None # concat segs @
             [snap a' [] (Some (py_range 0 (py_len xs))) None]) \<and>
     mset a' = mset xs \<and> length segs = nat (py_len xs - 1) \<and>
     (\<forall>seg\<in>set segs. insertion_segment xs seg)"
proof -
  define n where "n = int (length xs)"
  define I where "I = (\<lambda>i (a :: int list) (acc :: int snapshot list).
     mset a = mset xs \<and> sorted (take (nat i) a) \<and>
     (\<exists>segs. acc = concat segs \<and> length segs = nat (i - 1) \<and> (\<forall>seg\<in>set segs. insertion_segment xs seg)))"
  have "sorted (take (Suc 0) xs)" by (cases xs) simp_all
  moreover have "\<exists>segs. [] = concat segs \<and> length segs = nat (1 - 1) \<and>
      (\<forall>seg\<in>set segs. insertion_segment xs seg)"
    by (rule exI[of _ "[]"]) simp
  ultimately have init: "I 1 xs []" by (simp add: I_def)
  have step: "\<exists>t1 out. insertion_body n i a = Some (t1, out) \<and> I (i + 1) t1 (acc @ out)"
    if i: "1 \<le> i" "i < n" and inv: "I i a acc" for i a acc
  proof -
    from inv obtain segs where m0: "mset a = mset xs" and so: "sorted (take (nat i) a)"
      and ac: "acc = concat segs" and ln: "length segs = nat (i - 1)"
      and sg: "\<forall>seg\<in>set segs. insertion_segment xs seg"
      unfolding I_def by blast
    from insertion_body_segment[OF n_def i m0 so]
    obtain a2 seg where b: "insertion_body n i a = Some (a2, seg)" and m2: "mset a2 = mset xs"
      and s2: "sorted (take (nat (i + 1)) a2)" and sg1: "insertion_segment xs seg" by blast
    have "acc @ seg = concat (segs @ [seg])" using ac by simp
    moreover have "length (segs @ [seg]) = nat (i + 1 - 1)" using ln i by simp
    moreover have "\<forall>s\<in>set (segs @ [seg]). insertion_segment xs s" using sg sg1 by simp
    ultimately have "\<exists>segs'. acc @ seg = concat segs' \<and> length segs' = nat (i + 1 - 1) \<and>
        (\<forall>s\<in>set segs'. insertion_segment xs s)" by blast
    with m2 s2 have "I (i + 1) a2 (acc @ seg)" unfolding I_def by blast
    with b show ?thesis by blast
  qed
  from for_range_total[of I 1 xs n "insertion_body n", OF init step]
  obtain a' outs where r: "for_range 1 n (insertion_body n) xs = Some (a', outs)"
    and f: "I (max 1 n) a' outs" by blast
  from f obtain segs where ma: "mset a' = mset xs" and ou: "outs = concat segs"
    and ln: "length segs = nat (max 1 n - 1)"
    and sg: "\<forall>seg\<in>set segs. insertion_segment xs seg" unfolding I_def by blast
  have ln': "length segs = nat (n - 1)" using ln by (simp add: max_def)
  have "insertion_sort xs = Some (snap xs [] (Some []) None # concat segs @
             [snap a' [] (Some (py_range 0 n)) None])"
    using r ou by (simp add: insertion_sort_def py_len_def n_def[symmetric])
  then show ?thesis
    apply -
    apply (rule exI[of _ a'], rule exI[of _ segs])
    using ma ln' sg by (simp add: py_len_def n_def)
qed

section \<open>Merge sort: the frames of a run, merge by merge\<close>

text \<open>
  A copy loop started at \<open>k\<close> writes the positions \<open>k, k + 1, \<dots>, k' - 1\<close>, from left to
  right. A frame it yields therefore agrees with the array at the end of the loop on a
  prefix and with the array at the start of the loop on the rest.
\<close>

lemma merge_rest_frames:
  "p = nat (py_len B - i) \<Longrightarrow> 0 \<le> k \<Longrightarrow> merge_rest B i k a = Some ((i', k', a'), outs) \<Longrightarrow>
   length a' = length a \<and> k \<le> k' \<and>
   take (nat k) a' = take (nat k) a \<and> drop (nat k') a' = drop (nat k') a \<and>
   (outs = [] \<and> a' = a \<or> outs \<noteq> [] \<and> array (last outs) = a') \<and>
   (\<forall>s\<in>set outs. \<exists>m. nat k \<le> m \<and> m \<le> nat k' \<and> array s = take m a' @ drop m a)"
proof (induction p arbitrary: i k a outs)
  case 0
  then have "\<not> i < py_len B" by simp
  then have "merge_rest B i k a = Some ((i, k, a), [])" by (subst merge_rest.simps) simp
  with 0 show ?case by simp
next
  case (Suc p)
  have c: "i < py_len B" using Suc.prems(1) by linarith
  note k0 = Suc.prems(2)
  from Suc.prems(3) c obtain v a1 out1 where w: "py_set a k v = Some a1"
    and r1: "merge_rest B (i + 1) (k + 1) a1 = Some ((i', k', a'), out1)"
    and o: "outs = snap a1 [k + 1 - 1] None None # out1"
    by (subst (asm) merge_rest.simps) (auto simp: bind_eq_Some_conv Let_def)
  from py_set_SomeD[OF w k0] have a1: "a1 = a[nat k := v]" by simp
  have nk: "nat (k + 1) = Suc (nat k)" using k0 by simp
  have p: "p = nat (py_len B - (i + 1))" using Suc.prems(1) by linarith
  have k1: "0 \<le> k + 1" using k0 by simp
  from Suc.IH[OF p k1 r1]
  have l: "length a' = length a1" and kk: "k + 1 \<le> k'"
    and t: "take (Suc (nat k)) a' = take (Suc (nat k)) a1"
    and d: "drop (nat k') a' = drop (nat k') a1"
    and ls: "out1 = [] \<and> a' = a1 \<or> out1 \<noteq> [] \<and> array (last out1) = a'"
    and fr: "\<forall>s\<in>set out1. \<exists>m. Suc (nat k) \<le> m \<and> m \<le> nat k' \<and> array s = take m a' @ drop m a1"
    unfolding nk by blast+
  have nkk: "Suc (nat k) \<le> nat k'" using kk k0 by linarith
  have la: "length a' = length a" using l a1 by simp
  have t0: "take (nat k) a' = take (nat k) a"
    using take_eq_le[OF t, of "nat k"] by (simp add: a1)
  have dm: "drop m a1 = drop m a" if "Suc (nat k) \<le> m" for m
    unfolding a1 using that by simp
  have d0: "drop (nat k') a' = drop (nat k') a" using d dm[OF nkk] by simp
  have f1: "array (snap a1 [k + 1 - 1] None None) = take (Suc (nat k)) a' @ drop (Suc (nat k)) a"
    unfolding t dm[OF le_refl, symmetric] by (simp add: snap_def)
  have all: "\<forall>s\<in>set outs. \<exists>m. nat k \<le> m \<and> m \<le> nat k' \<and> array s = take m a' @ drop m a"
  proof
    fix s assume "s \<in> set outs"
    then consider "s = snap a1 [k + 1 - 1] None None" | "s \<in> set out1" using o by auto
    then show "\<exists>m. nat k \<le> m \<and> m \<le> nat k' \<and> array s = take m a' @ drop m a"
    proof cases
      case 1
      show ?thesis
        apply (rule exI[of _ "Suc (nat k)"])
        using 1 f1 nkk by simp
    next
      case 2
      with fr obtain m where m: "Suc (nat k) \<le> m" "m \<le> nat k'" "array s = take m a' @ drop m a1"
        by blast
      show ?thesis
        apply (rule exI[of _ m])
        using m dm[OF m(1)] by simp
    qed
  qed
  have lo: "outs \<noteq> [] \<and> array (last outs) = a'"
    using ls o by (auto simp: snap_def)
  show ?case using la kk t0 d0 lo all by simp
qed

lemma merge_both_frames:
  "p = nat (py_len L - i) + nat (py_len R - j) \<Longrightarrow> 0 \<le> k \<Longrightarrow>
   merge_both f L R lbl i j k a = Some ((i', j', k', a'), outs) \<Longrightarrow>
   length a' = length a \<and> k \<le> k' \<and>
   take (nat k) a' = take (nat k) a \<and> drop (nat k') a' = drop (nat k') a \<and>
   (outs = [] \<and> a' = a \<and> \<not> (i < py_len L \<and> j < py_len R) \<or>
    outs \<noteq> [] \<and> array (hd outs) = a \<and> array (last outs) = a') \<and>
   (\<forall>s\<in>set outs. \<exists>m. nat k \<le> m \<and> m \<le> nat k' \<and> array s = take m a' @ drop m a)"
proof (induction p arbitrary: i j k a outs)
  case 0
  then have n: "\<not> (i < py_len L \<and> j < py_len R)" by simp
  have "merge_both f L R lbl i j k a = Some ((i, j, k, a), [])"
    by (subst merge_both.simps) (simp only: n if_False)
  with 0 n show ?case by simp
next
  case (Suc p)
  note k0 = Suc.prems(2)
  show ?case
  proof (cases "i < py_len L \<and> j < py_len R")
    case False
    have "merge_both f L R lbl i j k a = Some ((i, j, k, a), [])"
      by (subst merge_both.simps) (simp only: False if_False)
    with Suc.prems False show ?thesis by simp
  next
    case c: True
    have "\<exists>v i1 j1 a1 out1. py_set a k v = Some a1 \<and>
        (i1 = i + 1 \<and> j1 = j \<or> i1 = i \<and> j1 = j + 1) \<and>
        merge_both f L R lbl i1 j1 (k + 1) a1 = Some ((i', j', k', a'), out1) \<and>
        outs = snap a [k] None (Some lbl) # snap a1 [k + 1 - 1] None (Some ''after write'') # out1"
      using Suc.prems(3)
      apply (subst (asm) merge_both.simps)
      apply (simp only: c if_True Let_def)
      apply (auto simp: bind_eq_Some_conv split: if_splits)
        apply blast+
      done
    then obtain v i1 j1 a1 out1 where w: "py_set a k v = Some a1"
      and ij: "i1 = i + 1 \<and> j1 = j \<or> i1 = i \<and> j1 = j + 1"
      and r1: "merge_both f L R lbl i1 j1 (k + 1) a1 = Some ((i', j', k', a'), out1)"
      and o: "outs = snap a [k] None (Some lbl) # snap a1 [k + 1 - 1] None (Some ''after write'') # out1"
      by blast
    from py_set_SomeD[OF w k0] have a1: "a1 = a[nat k := v]" by simp
    have nk: "nat (k + 1) = Suc (nat k)" using k0 by simp
    have p: "p = nat (py_len L - i1) + nat (py_len R - j1)"
      using Suc.prems(1) c ij by linarith
    have k1: "0 \<le> k + 1" using k0 by simp
    from Suc.IH[OF p k1 r1]
    have l: "length a' = length a1" and kk: "k + 1 \<le> k'"
      and t: "take (Suc (nat k)) a' = take (Suc (nat k)) a1"
      and d: "drop (nat k') a' = drop (nat k') a1"
      and ls: "out1 = [] \<and> a' = a1 \<or> out1 \<noteq> [] \<and> array (last out1) = a'"
      and fr: "\<forall>s\<in>set out1. \<exists>m. Suc (nat k) \<le> m \<and> m \<le> nat k' \<and> array s = take m a' @ drop m a1"
      unfolding nk by blast+
    have nkk: "Suc (nat k) \<le> nat k'" using kk k0 by linarith
    have la: "length a' = length a" using l a1 by simp
    have t0: "take (nat k) a' = take (nat k) a"
      using take_eq_le[OF t, of "nat k"] by (simp add: a1)
    have dm: "drop m a1 = drop m a" if "Suc (nat k) \<le> m" for m
      unfolding a1 using that by simp
    have d0: "drop (nat k') a' = drop (nat k') a" using d dm[OF nkk] by simp
    have f0: "array (snap a [k] None (Some lbl)) = take (nat k) a' @ drop (nat k) a"
      unfolding t0 by (simp add: snap_def)
    have f1: "array (snap a1 [k + 1 - 1] None (Some ''after write'')) =
        take (Suc (nat k)) a' @ drop (Suc (nat k)) a"
      unfolding t dm[OF le_refl, symmetric] by (simp add: snap_def)
    have all: "\<forall>s\<in>set outs. \<exists>m. nat k \<le> m \<and> m \<le> nat k' \<and> array s = take m a' @ drop m a"
    proof
      fix s assume "s \<in> set outs"
      then consider "s = snap a [k] None (Some lbl)"
        | "s = snap a1 [k + 1 - 1] None (Some ''after write'')" | "s \<in> set out1" using o by auto
      then show "\<exists>m. nat k \<le> m \<and> m \<le> nat k' \<and> array s = take m a' @ drop m a"
      proof cases
        case 1
        show ?thesis
          apply (rule exI[of _ "nat k"])
          using 1 f0 nkk by simp
      next
        case 2
        show ?thesis
          apply (rule exI[of _ "Suc (nat k)"])
          using 2 f1 nkk by simp
      next
        case 3
        with fr obtain m where m: "Suc (nat k) \<le> m" "m \<le> nat k'" "array s = take m a' @ drop m a1"
          by blast
        show ?thesis
          apply (rule exI[of _ m])
          using m dm[OF m(1)] by simp
      qed
    qed
    have lo: "outs \<noteq> [] \<and> array (hd outs) = a \<and> array (last outs) = a'"
      using ls o by (auto simp: snap_def)
    show ?thesis using la kk t0 d0 lo all by simp
  qed
qed

lemma merge_frames:
  assumes r: "merge f left mid right a = Some (a', seg)"
    and b: "0 \<le> left" "left < mid" "mid < right" "right \<le> int (length a)"
  shows "seg \<noteq> [] \<and> array (hd seg) = a \<and> array (last seg) = a' \<and>
     (\<forall>s\<in>set seg. \<exists>m. array s = take m a' @ drop m a)"
proof -
  define L where "L = py_slice a left mid"
  define R where "R = py_slice a mid right"
  have "L = take (nat mid - nat left) (drop (nat left) a)"
    unfolding L_def using b by (intro py_slice_in) simp_all
  then have "length L = nat mid - nat left" using b by simp
  then have lL: "0 < py_len L" using b by (simp add: py_len_def)
  have "R = take (nat right - nat mid) (drop (nat mid) a)"
    unfolding R_def using b by (intro py_slice_in) simp_all
  then have "length R = nat right - nat mid" using b by simp
  then have lR: "0 < py_len R" using b by (simp add: py_len_def)
  from r obtain i j k a1 out1 i2 k2 a2 out2 j3 k3 out3 where
    r1: "merge_both f L R (merge_label left mid right) 0 0 left a = Some ((i, j, k, a1), out1)"
    and r2: "merge_rest L i k a1 = Some ((i2, k2, a2), out2)"
    and r3: "merge_rest R j k2 a2 = Some ((j3, k3, a'), out3)"
    and sg: "seg = out1 @ out2 @ out3"
    by (auto simp: merge_def Let_def bind_eq_Some_conv L_def R_def)
  from merge_both_frames[OF refl b(1) r1] lL lR
  have l1: "length a1 = length a" and k1: "left \<le> k"
    and t1: "take (nat left) a1 = take (nat left) a" and d1: "drop (nat k) a1 = drop (nat k) a"
    and e1: "out1 \<noteq> []" "array (hd out1) = a" "array (last out1) = a1"
    and f1: "\<forall>s\<in>set out1. \<exists>m. nat left \<le> m \<and> m \<le> nat k \<and> array s = take m a1 @ drop m a"
    by blast+
  have k0: "0 \<le> k" using k1 b by simp
  from merge_rest_frames[OF refl k0 r2]
  have l2: "length a2 = length a1" and k2: "k \<le> k2"
    and t2: "take (nat k) a2 = take (nat k) a1" and d2: "drop (nat k2) a2 = drop (nat k2) a1"
    and e2: "out2 = [] \<and> a2 = a1 \<or> out2 \<noteq> [] \<and> array (last out2) = a2"
    and f2: "\<forall>s\<in>set out2. \<exists>m. nat k \<le> m \<and> m \<le> nat k2 \<and> array s = take m a2 @ drop m a1"
    by blast+
  have k20: "0 \<le> k2" using k2 k0 by simp
  from merge_rest_frames[OF refl k20 r3]
  have l3: "length a' = length a2" and k3: "k2 \<le> k3"
    and t3: "take (nat k2) a' = take (nat k2) a2" and d3: "drop (nat k3) a' = drop (nat k3) a2"
    and e3: "out3 = [] \<and> a' = a2 \<or> out3 \<noteq> [] \<and> array (last out3) = a'"
    and f3: "\<forall>s\<in>set out3. \<exists>m. nat k2 \<le> m \<and> m \<le> nat k3 \<and> array s = take m a' @ drop m a2"
    by blast+
  have ne: "seg \<noteq> []" using sg e1 by simp
  have hd: "array (hd seg) = a" using sg e1 by simp
  have ls: "array (last seg) = a'"
  proof (cases "out3 = []")
    case False
    with e3 sg show ?thesis by simp
  next
    case o3: True
    with e3 have a3: "a' = a2" by simp
    show ?thesis
    proof (cases "out2 = []")
      case False
      with e2 sg o3 a3 show ?thesis by simp
    next
      case True
      with e2 sg o3 a3 e1 show ?thesis by simp
    qed
  qed
  have nk: "nat k \<le> nat k2" using k2 by simp
  have t31: "take m a' = take m a1" if "m \<le> nat k" for m
  proof -
    have "take m a' = take m a2" using take_eq_le[OF t3, of m] that nk by simp
    also have "\<dots> = take m a1" using take_eq_le[OF t2 that] .
    finally show ?thesis .
  qed
  have t32: "take m a' = take m a2" if "m \<le> nat k2" for m
    using take_eq_le[OF t3 that] .
  have d10: "drop m a1 = drop m a" if "nat k \<le> m" for m
    using drop_eq_ge[OF d1 that] .
  have d20: "drop m a2 = drop m a" if "nat k2 \<le> m" for m
  proof -
    have "drop m a2 = drop m a1" using drop_eq_ge[OF d2 that] .
    also have "\<dots> = drop m a" using d10[of m] that nk by simp
    finally show ?thesis .
  qed
  have all: "\<forall>s\<in>set seg. \<exists>m. array s = take m a' @ drop m a"
  proof
    fix s assume "s \<in> set seg"
    then consider "s \<in> set out1" | "s \<in> set out2" | "s \<in> set out3" using sg by auto
    then show "\<exists>m. array s = take m a' @ drop m a"
    proof cases
      case 1
      with f1 obtain m where m: "m \<le> nat k" "array s = take m a1 @ drop m a" by blast
      then have "array s = take m a' @ drop m a" using t31 by simp
      then show ?thesis ..
    next
      case 2
      with f2 obtain m where m: "nat k \<le> m" "m \<le> nat k2" "array s = take m a2 @ drop m a1" by blast
      then have "array s = take m a' @ drop m a" using t32 d10 by simp
      then show ?thesis ..
    next
      case 3
      with f3 obtain m where m: "nat k2 \<le> m" "array s = take m a' @ drop m a2" by blast
      then have "array s = take m a' @ drop m a" using d20 by simp
      then show ?thesis ..
    qed
  qed
  from ne hd ls all show ?thesis by simp
qed

text \<open>
  The frames of one merge: what one call \<^verbatim>\<open>merge(left, mid, right)\<close> yields, started on
  the array \<open>a\<close> and ending on the array \<open>a'\<close>. Both are permutations of the input \<open>xs\<close>;
  the first frame shows \<open>a\<close> and the last one shows \<open>a'\<close>. A frame in between is yielded
  while values of the range are held in the buffers \<^verbatim>\<open>L\<close> and \<^verbatim>\<open>R\<close> only: it agrees with
  \<open>a'\<close> on a prefix and with \<open>a\<close> on the rest.
\<close>

definition merge_segment :: "('a \<Rightarrow> 'k::linorder) \<Rightarrow> 'a list \<Rightarrow> 'a snapshot list \<Rightarrow> bool" where
  "merge_segment f xs seg =
     (\<exists>left mid right a a'.
        0 \<le> left \<and> left < mid \<and> mid < right \<and> right \<le> py_len xs \<and>
        merge f left mid right a = Some (a', seg) \<and>
        mset a = mset xs \<and> mset a' = mset xs \<and>
        seg \<noteq> [] \<and> array (hd seg) = a \<and> array (last seg) = a' \<and>
        (\<forall>s\<in>set seg. \<exists>k. array s = take k a' @ drop k a))"

lemma sort_rec_segments:
  "m = nat (right - left) \<Longrightarrow> a = P @ M @ S \<Longrightarrow> length P = nat left \<Longrightarrow> 0 \<le> left \<Longrightarrow>
   int (length M) = right - left \<Longrightarrow> mset a = mset xs \<Longrightarrow>
   \<exists>segs. sort_rec f left right a = Some (P @ sort_key f M @ S, concat segs) \<and>
     (\<forall>seg\<in>set segs. merge_segment f xs seg)"
proof (induction m arbitrary: left right a P M S rule: less_induct)
  case (less m)
  show ?case
  proof (cases "right - left \<le> 1")
    case True
    then have "length M \<le> 1" using less.prems(5) by simp
    then have "sort_key f M = M" by (cases M) (simp_all add: Suc_le_eq)
    moreover have "sort_rec f left right a = Some (a, concat [])"
      using True by (subst sort_rec.simps) simp
    ultimately show ?thesis using less.prems(2) by (intro exI[of _ "[]"]) simp
  next
    case False
    define mid where "mid = (left + right) div 2"
    have md: "left < mid" "mid < right" using False by (simp_all add: mid_def)
    define A where "A = take (nat (mid - left)) M"
    define B where "B = drop (nat (mid - left)) M"
    have M: "M = A @ B" by (simp add: A_def B_def)
    have lA: "int (length A) = mid - left" using md less.prems(5) by (simp add: A_def)
    have lB: "int (length B) = right - mid" using md less.prems(5) lA M by simp
    have a1: "a = P @ A @ (B @ S)" using less.prems(2) M by simp
    have la: "length a = length xs" using less.prems(6) by (rule mset_eq_length)
    have rb: "right \<le> py_len xs"
      using less.prems(2,3,4,5) la[symmetric] by (simp add: py_len_def)
    from less.IH[OF _ refl a1 less.prems(3,4) lA less.prems(6)] md less.prems(1)
    obtain segs1 where r1: "sort_rec f left mid a = Some (P @ sort_key f A @ (B @ S), concat segs1)"
      and fr1: "\<forall>seg\<in>set segs1. merge_segment f xs seg" by auto
    define a1 where "a1 = (P @ sort_key f A) @ B @ S"
    have lP1: "length (P @ sort_key f A) = nat mid"
      using less.prems(3,4) lA md by simp
    have "mset a1 = mset a" unfolding a1_def a1 by simp
    then have mx1: "mset a1 = mset xs" using less.prems(6) by simp
    have m0: "0 \<le> mid" using md less.prems(4) by simp
    from less.IH[OF _ refl a1_def lP1 m0 lB mx1] md less.prems(1)
    obtain segs2 where r2: "sort_rec f mid right a1 = Some ((P @ sort_key f A) @ sort_key f B @ S, concat segs2)"
      and fr2: "\<forall>seg\<in>set segs2. merge_segment f xs seg" by auto
    define a2 where "a2 = P @ (sort_key f A @ sort_key f B) @ S"
    have "mset a2 = mset a1" unfolding a1_def a2_def by simp
    then have mx2: "mset a2 = mset xs" using mx1 by simp
    have lx2: "length xs = length a2" using mx2 by (metis mset_eq_length)
    have sx2: "set a2 \<subseteq> set xs" using mset_eq_setD[OF mx2] by simp
    have lA': "int (length (sort_key f A)) = mid - left" using lA by simp
    have lB': "int (length (sort_key f B)) = right - mid" using lB by simp
    define a3 where "a3 = P @ merge_lists f (sort_key f A) (sort_key f B) @ S"
    from merge_correct[OF a2_def less.prems(3) lA' lB' less.prems(4) lx2 sx2, of f]
    obtain seg where r3: "merge f left mid right a2 = Some (a3, seg)"
      unfolding a3_def by auto
    have "mset a3 = mset a2" unfolding a2_def a3_def by (simp add: mset_merge_lists)
    then have mx3: "mset a3 = mset xs" using mx2 by simp
    have rb2: "right \<le> int (length a2)" using rb lx2 by (simp add: py_len_def)
    from merge_frames[OF r3 less.prems(4) md rb2]
    have fs: "seg \<noteq> []" "array (hd seg) = a2" "array (last seg) = a3"
      "\<forall>s\<in>set seg. \<exists>k. array s = take k a3 @ drop k a2" by blast+
    have ms: "merge_segment f xs seg"
      unfolding merge_segment_def
      apply (rule exI[of _ left], rule exI[of _ mid], rule exI[of _ right], rule exI[of _ a2], rule exI[of _ a3])
      using less.prems(4) md rb r3 mx2 mx3 fs by simp
    have "sort_rec f left right a = Some (P @ sort_key f M @ S, concat (segs1 @ segs2 @ [seg]))"
      using False r1 r2 r3
      by (subst sort_rec.simps)
         (simp add: mid_def[symmetric] a1_def a2_def a3_def merge_lists_sort_key M Let_def)
    moreover have "\<forall>s\<in>set (segs1 @ segs2 @ [seg]). merge_segment f xs s"
      using fr1 fr2 ms by auto
    ultimately show ?thesis by blast
  qed
qed

lemma merge_sort_segments:
  "\<exists>a' segs. merge_sort xs =
       Some (if xs = [] then [snap xs [] (Some []) None]
             else snap xs [] (Some []) None # concat segs @
                  [snap a' [] (Some (py_range 0 (py_len xs))) None]) \<and>
     mset a' = mset xs \<and> (\<forall>seg\<in>set segs. merge_segment (\<lambda>x. x) xs seg)"
proof (cases "xs = []")
  case True
  have "merge_sort xs = Some [snap xs [] (Some []) None]"
    using True by (simp add: merge_sort_def merge_sort_key_def py_len_def)
  then show ?thesis
    apply -
    apply (rule exI[of _ xs], rule exI[of _ "[]"])
    using True by simp
next
  case False
  define n where "n = int (length xs)"
  have "\<exists>segs. sort_rec (\<lambda>x. x) 0 n xs = Some ([] @ sort_key (\<lambda>x. x) xs @ [], concat segs) \<and>
     (\<forall>seg\<in>set segs. merge_segment (\<lambda>x. x) xs seg)"
    by (rule sort_rec_segments[where m = "nat (n - 0)"]) (simp_all add: n_def)
  then obtain segs where r: "sort_rec (\<lambda>x. x) 0 n xs = Some (sort xs, concat segs)"
    and fr: "\<forall>seg\<in>set segs. merge_segment (\<lambda>x. x) xs seg" by auto
  have "merge_sort xs = Some (snap xs [] (Some []) None # concat segs @
                  [snap (sort xs) [] (Some (py_range 0 n)) None])"
    using False r by (simp add: merge_sort_def merge_sort_key_def py_len_def n_def[symmetric])
  then show ?thesis
    apply -
    apply (rule exI[of _ "sort xs"], rule exI[of _ segs])
    using False fr by (simp add: py_len_def n_def)
qed

section \<open>The working copy is the only list written\<close>

text \<open>
  While a generator runs, the heap is the caller's heap \<open>h0\<close> followed by the working copy,
  whose reference is \<open>length h0\<close>. Every read and write through that reference is a read
  or write of the working copy.
\<close>

lemma h_len_cell [simp]: "h_len (h0 @ [x]) (length h0) = py_len x"
  by (simp add: h_len_def)

lemma h_get_cell [simp]: "h_get (h0 @ [x]) (length h0) i = py_get x i"
  by (simp add: h_get_def)

lemma h_set_cell [simp]:
  "h_set (h0 @ [x]) (length h0) i v = map_option (\<lambda>x'. h0 @ [x']) (py_set x i v)"
  by (simp add: h_set_def split: option.splits)

lemma h_swap_cell [simp]:
  "h_swap (h0 @ [x]) (length h0) i j = map_option (\<lambda>x'. h0 @ [x']) (py_swap x i j)"
  by (cases "py_get x j"; cases "py_get x i"; cases "py_set x i (the (py_get x j))")
     (simp_all add: h_swap_def py_swap_def)

lemma h_snap_cell [simp]: "h_snap (h0 @ [x]) (length h0) act srt lbl = snap x act srt lbl"
  by (simp add: h_snap_def)

lemma h_slice_cell [simp]: "h_slice (h0 @ [x]) (length h0) lo hi = py_slice x lo hi"
  by (simp add: h_slice_def)

text \<open>A loop on the heap follows the loop on the value of the working copy, body by body.\<close>

lemma for_range_sim:
  assumes step: "\<And>j s s1 out. body j s = Some (s1, out) \<Longrightarrow> bodyh j (up s) = Some (up s1, out)"
  shows "p = nat (hi - j) \<Longrightarrow> for_range j hi body s = Some (s', outs) \<Longrightarrow>
     for_range j hi bodyh (up s) = Some (up s', outs)"
proof (induction p arbitrary: j s outs)
  case 0
  then have n: "\<not> j < hi" by simp
  from 0(2) n have "s' = s" "outs = []" by (subst (asm) for_range.simps, simp)+
  then show ?case using n by (subst for_range.simps) simp
next
  case (Suc p)
  then have lt: "j < hi" by linarith
  from Suc.prems(2) lt obtain s1 out1 out2 where b: "body j s = Some (s1, out1)"
    and r: "for_range (j + 1) hi body s1 = Some (s', out2)" and o: "outs = out1 @ out2"
    by (subst (asm) for_range.simps) (auto simp: bind_eq_Some_conv)
  have p: "p = nat (hi - (j + 1))" using Suc.prems(1) by linarith
  from Suc.IH[OF p r] have "for_range (j + 1) hi bodyh (up s1) = Some (up s', out2)" .
  with step[OF b] lt o show ?case by (subst for_range.simps) simp
qed

subsection \<open>Bubble sort\<close>

lemma bubble_body_sim:
  "bubble_body n i j s = Some (s1, out) \<Longrightarrow>
   bubble_body_h (length h0) n i j (case s of (x, sw) \<Rightarrow> (h0 @ [x], sw)) =
     Some (case s1 of (x, sw) \<Rightarrow> (h0 @ [x], sw), out)"
  by (cases s; cases s1)
     (auto simp: bubble_body_def bubble_body_h_def Let_def bind_eq_Some_conv split: if_splits)

lemma bubble_outer_sim:
  "p = nat (n - i) \<Longrightarrow> bubble_outer n i x = Some (x', outs) \<Longrightarrow>
   bubble_outer_h (length h0) n i (h0 @ [x]) = Some (h0 @ [x'], outs)"
proof (induction p arbitrary: i x outs)
  case 0
  then have n: "\<not> i < n" by simp
  from 0(2) n have "x' = x" "outs = []" by (subst (asm) bubble_outer.simps, simp)+
  then show ?case using n by (subst bubble_outer_h.simps) simp
next
  case (Suc p)
  then have lt: "i < n" by linarith
  from Suc.prems(2) lt obtain x1 sw out1 where
    f: "for_range 0 (n - i - 1) (bubble_body n i) (x, False) = Some ((x1, sw), out1)"
    and c: "\<not> sw \<and> x' = x1 \<and> outs = out1 \<or>
       sw \<and> (\<exists>out2. bubble_outer n (i + 1) x1 = Some (x', out2) \<and> outs = out1 @ out2)"
    by (subst (asm) bubble_outer.simps) (auto simp: bind_eq_Some_conv split: if_splits)
  from for_range_sim[where up = "\<lambda>(x, sw). (h0 @ [x], sw)" and body = "bubble_body n i"
      and bodyh = "bubble_body_h (length h0) n i", OF bubble_body_sim refl f]
  have fh: "for_range 0 (n - i - 1) (bubble_body_h (length h0) n i) (h0 @ [x], False) =
      Some ((h0 @ [x1], sw), out1)" by simp
  have p: "p = nat (n - (i + 1))" using Suc.prems(1) by linarith
  show ?case
  proof (cases sw)
    case False
    with c fh lt show ?thesis by (subst bubble_outer_h.simps) simp
  next
    case True
    with c obtain out2 where r: "bubble_outer n (i + 1) x1 = Some (x', out2)"
      and o: "outs = out1 @ out2" by blast
    from Suc.IH[OF p r] fh lt True o show ?thesis by (subst bubble_outer_h.simps) simp
  qed
qed

lemma bubble_sort_sim:
  assumes "bubble_sort (h ! arr) = Some snaps"
  shows "bubble_sort_h h arr = Some (h @ [array (last snaps)], snaps)"
proof (cases "py_len (h ! arr) = 0")
  case True
  with assms show ?thesis
    by (auto simp: bubble_sort_def bubble_sort_h_def list_copy_def Let_def snap_def)
next
  case False
  with assms obtain x' out where r: "bubble_outer (py_len (h ! arr)) 0 (h ! arr) = Some (x', out)"
    and s: "snaps = [snap (h ! arr) [] (Some []) None] @ out @
        [snap x' [] (Some (py_range 0 (py_len (h ! arr)))) None]"
    by (auto simp: bubble_sort_def Let_def bind_eq_Some_conv)
  from bubble_outer_sim[OF refl r, of h] False s show ?thesis
    by (simp add: bubble_sort_h_def list_copy_def Let_def snap_def)
qed

subsection \<open>Selection sort\<close>

lemma selection_scan_h_cell [simp]:
  "selection_scan_h (h0 @ [x]) (length h0) i j m = selection_scan x i j m"
  by (cases "py_get x j"; cases "py_get x m")
     (simp_all add: selection_scan_h_def selection_scan_def Let_def)

lemma selection_body_sim:
  "selection_body n i x = Some (x', out) \<Longrightarrow>
   selection_body_h (length h0) n i (h0 @ [x]) = Some (h0 @ [x'], out)"
proof -
  have e: "selection_scan_h (h0 @ [x]) (length h0) i = selection_scan x i"
    by (intro ext) simp
  assume "selection_body n i x = Some (x', out)"
  then show ?thesis
    by (auto simp: selection_body_def selection_body_h_def e bind_eq_Some_conv split: if_splits)
qed

lemma selection_sort_sim:
  assumes "selection_sort (h ! arr) = Some snaps"
  shows "selection_sort_h h arr = Some (h @ [array (last snaps)], snaps)"
proof -
  from assms obtain x' out where
    r: "for_range 0 (py_len (h ! arr)) (selection_body (py_len (h ! arr))) (h ! arr) = Some (x', out)"
    and s: "snaps = [snap (h ! arr) [] (Some []) None] @ out @
        [snap x' [] (Some (py_range 0 (py_len (h ! arr)))) None]"
    by (auto simp: selection_sort_def Let_def bind_eq_Some_conv)
  from for_range_sim[where up = "\<lambda>x. h @ [x]" and body = "selection_body (py_len (h ! arr))"
      and bodyh = "selection_body_h (length h) (py_len (h ! arr))", OF selection_body_sim refl r]
  show ?thesis using s by (simp add: selection_sort_h_def list_copy_def Let_def snap_def)
qed

subsection \<open>Insertion sort\<close>

lemma insertion_shift_sim:
  "p = nat (j + 1) \<Longrightarrow> insertion_shift n i key j x = Some ((x', j'), outs) \<Longrightarrow>
   insertion_shift_h (length h0) n i key j (h0 @ [x]) = Some ((h0 @ [x'], j'), outs)"
proof (induction p arbitrary: j x outs)
  case 0
  then have n: "\<not> 0 \<le> j" by simp
  from 0(2) n have "x' = x" "j' = j" "outs = []" by (subst (asm) insertion_shift.simps, simp)+
  then show ?case using n by (subst insertion_shift_h.simps) simp
next
  case (Suc p)
  then have j0: "0 \<le> j" by linarith
  from Suc.prems(2) j0 obtain v where v: "py_get x j = Some v"
    by (subst (asm) insertion_shift.simps) (auto simp: bind_eq_Some_conv)
  show ?case
  proof (cases "v > key")
    case False
    from Suc.prems(2) j0 v False have "x' = x" "j' = j" "outs = []"
      by (subst (asm) insertion_shift.simps, simp)+
    then show ?thesis using j0 v False by (subst insertion_shift_h.simps) simp
  next
    case True
    from Suc.prems(2) j0 v True obtain x1 out1 where w: "py_set x (j + 1) v = Some x1"
      and r: "insertion_shift n i key (j - 1) x1 = Some ((x', j'), out1)"
      and o: "outs = snap x [j, j + 1] (Some (py_range (i + 1) n)) None #
                snap x1 [j - 1 + 1] (Some (py_range (i + 1) n)) None # out1"
      by (subst (asm) insertion_shift.simps) (auto simp: bind_eq_Some_conv Let_def)
    have p: "p = nat (j - 1 + 1)" using Suc.prems(1) by linarith
    from Suc.IH[OF p r] j0 v True w o show ?thesis
      by (subst insertion_shift_h.simps) (simp add: Let_def)
  qed
qed

lemma insertion_body_sim:
  "insertion_body n i x = Some (x', out) \<Longrightarrow>
   insertion_body_h (length h0) n i (h0 @ [x]) = Some (h0 @ [x'], out)"
proof -
  assume "insertion_body n i x = Some (x', out)"
  then obtain key x1 j out1 where k: "py_get x i = Some key"
    and r: "insertion_shift n i key (i - 1) x = Some ((x1, j), out1)"
    and w: "py_set x1 (j + 1) key = Some x'"
    and o: "out = out1 @ [snap x' [j + 1] (Some (py_range (i + 1) n)) None]"
    by (auto simp: insertion_body_def bind_eq_Some_conv)
  from insertion_shift_sim[OF refl r, of h0] k w o show ?thesis
    by (simp add: insertion_body_h_def)
qed

lemma insertion_sort_sim:
  assumes "insertion_sort (h ! arr) = Some snaps"
  shows "insertion_sort_h h arr = Some (h @ [array (last snaps)], snaps)"
proof -
  from assms obtain x' out where
    r: "for_range 1 (py_len (h ! arr)) (insertion_body (py_len (h ! arr))) (h ! arr) = Some (x', out)"
    and s: "snaps = [snap (h ! arr) [] (Some []) None] @ out @
        [snap x' [] (Some (py_range 0 (py_len (h ! arr)))) None]"
    by (auto simp: insertion_sort_def Let_def bind_eq_Some_conv)
  from for_range_sim[where up = "\<lambda>x. h @ [x]" and body = "insertion_body (py_len (h ! arr))"
      and bodyh = "insertion_body_h (length h) (py_len (h ! arr))", OF insertion_body_sim refl r]
  show ?thesis using s by (simp add: insertion_sort_h_def list_copy_def Let_def snap_def)
qed

subsection \<open>Merge sort\<close>

lemma merge_rest_sim:
  "p = nat (py_len B - i) \<Longrightarrow> merge_rest B i k x = Some ((i', k', x'), outs) \<Longrightarrow>
   merge_rest_h (length h0) B i k (h0 @ [x]) = Some ((i', k', h0 @ [x']), outs)"
proof (induction p arbitrary: i k x outs)
  case 0
  then have n: "\<not> i < py_len B" by simp
  from 0(2) n have "x' = x" "i' = i" "k' = k" "outs = []"
    by (subst (asm) merge_rest.simps, simp)+
  then show ?case using n by (subst merge_rest_h.simps) simp
next
  case (Suc p)
  then have c: "i < py_len B" by linarith
  from Suc.prems(2) c obtain v x1 out1 where g: "py_get B i = Some v"
    and w: "py_set x k v = Some x1"
    and r: "merge_rest B (i + 1) (k + 1) x1 = Some ((i', k', x'), out1)"
    and o: "outs = snap x1 [k + 1 - 1] None None # out1"
    by (subst (asm) merge_rest.simps) (auto simp: bind_eq_Some_conv Let_def)
  have p: "p = nat (py_len B - (i + 1))" using Suc.prems(1) by linarith
  from Suc.IH[OF p r] c g w o show ?case
    by (subst merge_rest_h.simps) (simp add: Let_def)
qed

lemma merge_both_sim:
  "p = nat (py_len L - i) + nat (py_len R - j) \<Longrightarrow>
   merge_both (\<lambda>v. v) L R lbl i j k x = Some ((i', j', k', x'), outs) \<Longrightarrow>
   merge_both_h (length h0) L R lbl i j k (h0 @ [x]) = Some ((i', j', k', h0 @ [x']), outs)"
proof (induction p arbitrary: i j k x outs)
  case 0
  then have n: "\<not> (i < py_len L \<and> j < py_len R)" by simp
  have "merge_both (\<lambda>v. v) L R lbl i j k x = Some ((i, j, k, x), [])"
    by (subst merge_both.simps) (simp only: n if_False)
  with 0(2) have e: "x' = x" "i' = i" "j' = j" "k' = k" "outs = []" by simp_all
  have "merge_both_h (length h0) L R lbl i j k (h0 @ [x]) = Some ((i, j, k, h0 @ [x]), [])"
    by (subst merge_both_h.simps) (simp only: n if_False)
  with e show ?case by simp
next
  case (Suc p)
  show ?case
  proof (cases "i < py_len L \<and> j < py_len R")
    case False
    have "merge_both (\<lambda>v. v) L R lbl i j k x = Some ((i, j, k, x), [])"
      by (subst merge_both.simps) (simp only: False if_False)
    with Suc.prems(2) have e: "x' = x" "i' = i" "j' = j" "k' = k" "outs = []" by simp_all
    have "merge_both_h (length h0) L R lbl i j k (h0 @ [x]) = Some ((i, j, k, h0 @ [x]), [])"
      by (subst merge_both_h.simps) (simp only: False if_False)
    with e show ?thesis by simp
  next
    case c: True
    have "\<exists>u v. py_get L i = Some u \<and> py_get R j = Some v"
      using Suc.prems(2)
      apply (subst (asm) merge_both.simps)
      apply (simp only: c if_True Let_def)
      apply (auto simp: bind_eq_Some_conv)
      done
    then obtain u v where g: "py_get L i = Some u" "py_get R j = Some v" by blast
    define w where "w = (if u \<le> v then u else v)"
    define i1 where "i1 = (if u \<le> v then i + 1 else i)"
    define j1 where "j1 = (if u \<le> v then j else j + 1)"
    have "\<exists>x1 out1. py_set x k w = Some x1 \<and>
        merge_both (\<lambda>v. v) L R lbl i1 j1 (k + 1) x1 = Some ((i', j', k', x'), out1) \<and>
        outs = snap x [k] None (Some lbl) # snap x1 [k + 1 - 1] None (Some ''after write'') # out1"
      using Suc.prems(2)
      apply (subst (asm) merge_both.simps)
      apply (simp only: c if_True Let_def g)
      apply (auto simp: bind_eq_Some_conv w_def i1_def j1_def split: if_splits)
      done
    then obtain x1 out1 where s: "py_set x k w = Some x1"
      and r: "merge_both (\<lambda>v. v) L R lbl i1 j1 (k + 1) x1 = Some ((i', j', k', x'), out1)"
      and o: "outs = snap x [k] None (Some lbl) # snap x1 [k + 1 - 1] None (Some ''after write'') # out1"
      by blast
    have p: "p = nat (py_len L - i1) + nat (py_len R - j1)"
      using Suc.prems(1) c unfolding i1_def j1_def by (cases "u \<le> v") (simp_all, linarith+)
    from Suc.IH[OF p r]
    have rh: "merge_both_h (length h0) L R lbl i1 j1 (k + 1) (h0 @ [x1]) =
        Some ((i', j', k', h0 @ [x']), out1)" .
    show ?thesis
      apply (subst merge_both_h.simps)
      apply (simp only: c if_True Let_def g)
      using s rh o apply (cases "u \<le> v")
       apply (simp_all add: w_def i1_def j1_def)
      done
  qed
qed

lemma merge_sim:
  "merge (\<lambda>v. v) left mid right x = Some (x', out) \<Longrightarrow>
   merge_h (length h0) left mid right (h0 @ [x]) = Some (h0 @ [x'], out)"
proof -
  assume "merge (\<lambda>v. v) left mid right x = Some (x', out)"
  then obtain i j k x1 out1 i2 k2 x2 out2 j3 k3 out3 where
    r1: "merge_both (\<lambda>v. v) (py_slice x left mid) (py_slice x mid right)
          (merge_label left mid right) 0 0 left x = Some ((i, j, k, x1), out1)"
    and r2: "merge_rest (py_slice x left mid) i k x1 = Some ((i2, k2, x2), out2)"
    and r3: "merge_rest (py_slice x mid right) j k2 x2 = Some ((j3, k3, x'), out3)"
    and o: "out = out1 @ out2 @ out3"
    by (auto simp: merge_def Let_def bind_eq_Some_conv)
  from merge_both_sim[OF refl r1, of h0] merge_rest_sim[OF refl r2, of h0]
    merge_rest_sim[OF refl r3, of h0] o
  show ?thesis by (simp add: merge_h_def Let_def)
qed

lemma sort_rec_sim:
  "p = nat (right - left) \<Longrightarrow> sort_rec (\<lambda>v. v) left right x = Some (x', outs) \<Longrightarrow>
   sort_rec_h (length h0) left right (h0 @ [x]) = Some (h0 @ [x'], outs)"
proof (induction p arbitrary: left right x x' outs rule: less_induct)
  case (less p)
  show ?case
  proof (cases "right - left \<le> 1")
    case True
    from less.prems(2) True have "x' = x" "outs = []" by (subst (asm) sort_rec.simps, simp)+
    then show ?thesis using True by (subst sort_rec_h.simps) simp
  next
    case False
    define mid where "mid = (left + right) div 2"
    have md: "left < mid" "mid < right" using False by (simp_all add: mid_def)
    from less.prems(2) False obtain x1 out1 x2 out2 out3 where
      r1: "sort_rec (\<lambda>v. v) left mid x = Some (x1, out1)"
      and r2: "sort_rec (\<lambda>v. v) mid right x1 = Some (x2, out2)"
      and r3: "merge (\<lambda>v. v) left mid right x2 = Some (x', out3)"
      and o: "outs = out1 @ out2 @ out3"
      by (subst (asm) sort_rec.simps) (auto simp: bind_eq_Some_conv Let_def mid_def)
    have "nat (mid - left) < p" "nat (right - mid) < p" using md less.prems(1) by linarith+
    from less.IH[OF this(1) refl r1] less.IH[OF this(2) refl r2] merge_sim[OF r3, of h0] o False
    show ?thesis by (subst sort_rec_h.simps) (simp add: Let_def mid_def)
  qed
qed

lemma merge_sort_sim:
  assumes "merge_sort (h ! arr) = Some snaps"
  shows "merge_sort_h h arr = Some (h @ [array (last snaps)], snaps)"
proof (cases "py_len (h ! arr) = 0")
  case True
  with assms show ?thesis
    by (auto simp: merge_sort_def merge_sort_key_def merge_sort_h_def list_copy_def Let_def snap_def)
next
  case False
  with assms obtain x' out where
    r: "sort_rec (\<lambda>v. v) 0 (py_len (h ! arr)) (h ! arr) = Some (x', out)"
    and s: "snaps = [snap (h ! arr) [] (Some []) None] @ out @
        [snap x' [] (Some (py_range 0 (py_len (h ! arr)))) None]"
    by (auto simp: merge_sort_def merge_sort_key_def Let_def bind_eq_Some_conv)
  from sort_rec_sim[OF refl r, of h] False s show ?thesis
    by (simp add: merge_sort_h_def list_copy_def Let_def snap_def)
qed

subsection \<open>Quick sort\<close>

lemma quick_scan_sim:
  "quick_scan pivot high j s = Some (s1, out) \<Longrightarrow>
   quick_scan_h (length h0) pivot high j (case s of (x, i) \<Rightarrow> (h0 @ [x], i)) =
     Some (case s1 of (x, i) \<Rightarrow> (h0 @ [x], i), out)"
  by (cases s; cases s1)
     (auto simp: quick_scan_def quick_scan_h_def Let_def bind_eq_Some_conv split: if_splits)

lemma partition_step_sim:
  "partition_step low high x = Some ((x', i), out) \<Longrightarrow>
   partition_step_h (length h0) low high (h0 @ [x]) = Some ((h0 @ [x'], i), out)"
proof -
  assume "partition_step low high x = Some ((x', i), out)"
  then obtain pivot x1 out1 where g: "py_get x high = Some pivot"
    and r: "for_range low high (quick_scan pivot high) (x, low) = Some ((x1, i), out1)"
    and w: "py_swap x1 i high = Some x'"
    and o: "out = out1 @ [snap x' [i, high] None (Some ''pivot placed'')]"
    by (auto simp: partition_step_def bind_eq_Some_conv)
  from for_range_sim[where up = "\<lambda>(x, i). (h0 @ [x], i)" and body = "quick_scan pivot high"
      and bodyh = "quick_scan_h (length h0) pivot high", OF quick_scan_sim refl r]
  have "for_range low high (quick_scan_h (length h0) pivot high) (h0 @ [x], low) =
      Some ((h0 @ [x1], i), out1)" by simp
  with g w o show ?thesis by (simp add: partition_step_h_def)
qed

lemma quick_loop_sim:
  "m = sum_list (map range_weight stack) \<Longrightarrow> quick_loop stack x = Some (x', outs) \<Longrightarrow>
   quick_loop_h (length h0) stack (h0 @ [x]) = Some (h0 @ [x'], outs)"
proof (induction m arbitrary: stack x outs rule: less_induct)
  case (less m)
  show ?case
  proof (cases "stack = []")
    case True
    from less.prems(2) True have "x' = x" "outs = []" by (subst (asm) quick_loop.simps, simp)+
    then show ?thesis using True by (subst quick_loop_h.simps) simp
  next
    case False
    obtain low high where lh: "last stack = (low, high)" by (cases "last stack")
    define rest where "rest = butlast stack"
    have st: "stack = rest @ [(low, high)]"
      using False lh by (simp add: rest_def flip: lh)
    have w: "sum_list (map range_weight stack) = sum_list (map range_weight rest) + range_weight (low, high)"
      by (simp add: st)
    show ?thesis
    proof (cases "low \<ge> high")
      case True
      from less.prems(2) False lh True have r: "quick_loop rest x = Some (x', outs)"
        by (subst (asm) quick_loop.simps) (simp add: rest_def)
      have "0 < range_weight (low, high)" by (simp add: range_weight_def)
      then have "sum_list (map range_weight rest) < m" using less.prems(1) w by linarith
      from less.IH[OF this refl r] False lh True show ?thesis
        by (subst quick_loop_h.simps) (simp add: rest_def)
    next
      case lt: False
      from less.prems(2) False lh lt obtain x1 i out1 out2 where
        p: "partition_step low high x = Some ((x1, i), out1)"
        and r: "quick_loop (rest @ [(low, i - 1), (i + 1, high)]) x1 = Some (x', out2)"
        and o: "outs = out1 @ out2"
        by (subst (asm) quick_loop.simps) (auto simp: rest_def bind_eq_Some_conv)
      from partition_step_bounds[OF p] lt have ib: "low \<le> i" "i \<le> high" by (simp_all add: max_def)
      define stack2 where "stack2 = rest @ [(low, i - 1), (i + 1, high)]"
      have "range_weight (low, i - 1) + range_weight (i + 1, high) < range_weight (low, high)"
        using ib unfolding range_weight_def by simp
      moreover have "sum_list (map range_weight stack2) =
          sum_list (map range_weight rest) + (range_weight (low, i - 1) + range_weight (i + 1, high))"
        by (simp add: stack2_def)
      ultimately have "sum_list (map range_weight stack2) < m"
        using less.prems(1) w by linarith
      from less.IH[OF this refl r[folded stack2_def]] partition_step_sim[OF p, of h0] False lh lt o
      show ?thesis
        by (subst quick_loop_h.simps) (simp add: rest_def[symmetric] stack2_def[symmetric])
    qed
  qed
qed

lemma quick_sort_sim:
  assumes "quick_sort (h ! arr) = Some snaps"
  shows "quick_sort_h h arr = Some (h @ [array (last snaps)], snaps)"
proof (cases "py_len (h ! arr) = 0")
  case True
  with assms show ?thesis
    by (auto simp: quick_sort_def quick_sort_h_def list_copy_def Let_def snap_def)
next
  case False
  with assms obtain x' out where
    r: "quick_loop [(0, py_len (h ! arr) - 1)] (h ! arr) = Some (x', out)"
    and s: "snaps = [snap (h ! arr) [] (Some []) None] @ out @
        [snap x' [] (Some (py_range 0 (py_len (h ! arr)))) None]"
    by (auto simp: quick_sort_def Let_def bind_eq_Some_conv)
  from quick_loop_sim[OF refl r, of h] False s show ?thesis
    by (simp add: quick_sort_h_def list_copy_def Let_def snap_def)
qed

text \<open>
  The loops write through the reference they are given: run on the reference of the
  caller's list itself, without the copy, the passes of bubble sort sort the caller's list.
\<close>

lemma loops_write_through_reference:
  "map_option fst (bubble_outer_h 1 3 0 [[9], [3, 1, 2]]) = Some [[9], [1, 2, 3]]"
  by code_simp

text \<open>Each generator on list objects, with the generator on values it follows.\<close>

definition generators_h ::
  "((heap \<Rightarrow> ref \<Rightarrow> (heap \<times> int snapshot list) option) \<times> (int list \<Rightarrow> int snapshot list option)) list" where
  "generators_h =
     [(bubble_sort_h, bubble_sort), (selection_sort_h, selection_sort),
      (insertion_sort_h, insertion_sort), (merge_sort_h, merge_sort), (quick_sort_h, quick_sort)]"

lemma generators_h_sim:
  assumes "(alg_h, alg) \<in> set generators_h" and "alg (h ! arr) = Some snaps"
  shows "alg_h h arr = Some (h @ [array (last snaps)], snaps)"
  using assms bubble_sort_sim selection_sort_sim insertion_sort_sim merge_sort_sim quick_sort_sim
  by (auto simp: generators_h_def)

lemma generators_h_value:
  assumes "(alg_h, alg) \<in> set generators_h"
  shows "alg \<in> set generators"
  using assms by (auto simp: generators_h_def generators_def)

section \<open>The empty input\<close>

text \<open>
  C7, evaluated on the code. On the empty list \<^verbatim>\<open>bubble_sort\<close>, \<^verbatim>\<open>merge_sort\<close> and
  \<^verbatim>\<open>quick_sort\<close> return after their single snapshot (the guard \<^verbatim>\<open>if n == 0\<close>), whereas
  \<^verbatim>\<open>selection_sort\<close> and \<^verbatim>\<open>insertion_sort\<close> have no such guard and yield the trivial
  snapshot twice: the before-frame and the final frame.
\<close>

theorem empty_input_snapshots:
  "bubble_sort [] = Some [snap [] [] (Some []) None] \<and>
   merge_sort [] = Some [snap [] [] (Some []) None] \<and>
   quick_sort [] = Some [snap [] [] (Some []) None] \<and>
   selection_sort [] = Some [snap [] [] (Some []) None, snap [] [] (Some []) None] \<and>
   insertion_sort [] = Some [snap [] [] (Some []) None, snap [] [] (Some []) None]"
  by (simp add: bubble_sort_def merge_sort_def merge_sort_key_def quick_sort_def
      selection_sort_def insertion_sort_def py_len_def py_range_def for_range.simps)

section \<open>Bubble sort: early exit\<close>

text \<open>
  C6. On a sorted, non-empty input of length \<open>n\<close>, \<^verbatim>\<open>bubble_sort\<close> makes a single pass:
  it yields the before-frame, the \<open>n - 1\<close> comparison frames of pass \<open>i = 0\<close> and the
  final frame, \<open>n + 1\<close> snapshots in all.
\<close>

theorem bubble_sort_sorted_input:
  assumes "sorted xs" and "xs \<noteq> []"
  shows "bubble_sort xs = Some (sorted_run xs) \<and> length (sorted_run xs) = length xs + 1"
proof -
  define n where "n = int (length xs)"
  have n0: "0 < n" using assms(2) by (simp add: n_def)
  have inner: "for_range 0 (n - 1) (bubble_body n 0) (xs, False) =
      Some ((xs, False), map (\<lambda>j. snap xs [j, j + 1] (Some (py_range n n)) None) [0..n - 2])"
    using assms(1) n_def by (rule bubble_inner_sorted)
  have "bubble_outer n 0 xs = Some (xs, map (\<lambda>j. snap xs [j, j + 1] (Some []) None) [0..n - 2])"
    using n0 inner by (subst bubble_outer.simps) (simp add: py_range_def)
  then have 1: "bubble_sort xs = Some (sorted_run xs)"
    using assms(2) by (simp add: bubble_sort_def sorted_run_def py_len_def n_def[symmetric])
  have "length [0..n - 2] = nat (n - 1)" by simp
  moreover have "Suc (nat (n - 1)) = length xs" using n0 unfolding n_def by linarith
  ultimately have 2: "length (sorted_run xs) = length xs + 1"
    by (simp add: sorted_run_def py_len_def n_def[symmetric])
  from 1 2 show ?thesis by simp
qed

theorem bubble_sort_sorted_input_witness:
  "sorted [1, 2, 3 :: int] \<and> [1, 2, 3 :: int] \<noteq> [] \<and>
   bubble_sort [1, 2, 3] = Some (sorted_run [1, 2, 3]) \<and> length (sorted_run [1, 2, 3]) = 4"
  using bubble_sort_sorted_input[of "[1, 2, 3]"] by simp

section \<open>The final snapshot\<close>

text \<open>
  C1. For each of the five generators and every list of numbers, the empty and the
  one-element list included, the run returns, and the array of the last snapshot it
  yields is sorted in non-decreasing order and is a permutation of the input.
\<close>

theorem final_snapshot_sorted_permutation:
  "alg \<in> set generators \<Longrightarrow>
   \<exists>snaps. alg xs = Some snaps \<and> snaps \<noteq> [] \<and>
     sorted (array (last snaps)) \<and> mset (array (last snaps)) = mset xs"
proof -
  assume "alg \<in> set generators"
  from generator_run[OF this, of xs]
  obtain a' snaps where "alg xs = Some snaps" "run_shape xs a' snaps" "sorted a'" "mset a' = mset xs"
    by blast
  then show ?thesis using run_shape_last[of xs a' snaps] by (auto simp: run_shape_def)
qed

theorem final_snapshot_sorted_permutation_witness:
  "quick_sort \<in> set generators \<and>
   map_option (\<lambda>snaps. array (last snaps)) (quick_sort [3, 1, 2]) = Some [1, 2, 3] \<and>
   (\<exists>snaps. quick_sort [3, 1, 2] = Some snaps \<and> snaps \<noteq> [] \<and>
     sorted (array (last snaps)) \<and> mset (array (last snaps)) = mset [3, 1, 2])"
proof -
  have g: "quick_sort \<in> set generators" by (simp add: generators_def)
  have e: "map_option (\<lambda>snaps. array (last snaps)) (quick_sort [3, 1, 2]) = Some [1, 2, 3]"
    by code_simp
  show ?thesis using g e final_snapshot_sorted_permutation[OF g, of "[3, 1, 2]"] by blast
qed

section \<open>Every snapshot\<close>

text \<open>
  C2, as stated, fails on the code: while \<^verbatim>\<open>insertion_sort\<close> shifts and while \<^verbatim>\<open>merge\<close>
  writes, one value is held outside the array (in \<^verbatim>\<open>key\<close>, in the buffers \<^verbatim>\<open>L\<close> and
  \<^verbatim>\<open>R\<close>) and a frame shows another value twice. On the input \<open>[2, 1]\<close> insertion sort
  yields the array \<open>[2, 2]\<close> and merge sort yields \<open>[1, 1]\<close>; neither is a permutation of
  \<open>[2, 1]\<close>.
\<close>

theorem every_frame_permutation_counterexample:
  "map_option (map array) (insertion_sort [2, 1]) = Some [[2, 1], [2, 1], [2, 2], [1, 2], [1, 2]] \<and>
   mset [2, 2 :: int] \<noteq> mset [2, 1] \<and>
   map_option (map array) (merge_sort [2, 1]) = Some [[2, 1], [2, 1], [1, 1], [1, 2], [1, 2]] \<and>
   mset [1, 1 :: int] \<noteq> mset [2, 1]"
proof -
  have 1: "map_option (map array) (insertion_sort [2, 1]) = Some [[2, 1], [2, 1], [2, 2], [1, 2], [1, 2]]"
    by code_simp
  have 2: "map_option (map array) (merge_sort [2, 1]) = Some [[2, 1], [2, 1], [1, 1], [1, 2], [1, 2]]"
    by code_simp
  have 3: "mset [2, 2 :: int] \<noteq> mset [2, 1]" "mset [1, 1 :: int] \<noteq> mset [2, 1]"
    by simp_all
  from 1 2 3 show ?thesis by simp
qed

text \<open>
  C2, amended. The array of a yielded snapshot is a permutation of the input except while a
  value of the array is held outside of it, in \<^verbatim>\<open>key\<close> or in the buffers \<^verbatim>\<open>L\<close> and \<^verbatim>\<open>R\<close>.

  \<^item> In \<^verbatim>\<open>bubble_sort\<close>, \<^verbatim>\<open>selection_sort\<close> and \<^verbatim>\<open>quick_sort\<close>, which change the array by
    swaps only, the array of every snapshot is a permutation of the input.
  \<^item> The snapshots of \<^verbatim>\<open>insertion_sort\<close> are the before-frame, the frames of the \<open>n - 1\<close>
    insertions one after the other, and the final frame. The before-frame and the final
    frame show permutations of the input. Each insertion starts on a permutation \<open>a\<close> of
    the input and ends on a permutation \<open>a'\<close> of the input; its first frame shows \<open>a\<close>, its
    last frame (the one yielded after \<^verbatim>\<open>a[j + 1] = key\<close>) shows \<open>a'\<close>, and every frame of it
    shows \<open>a\<close> up to some position and \<open>a'\<close> from there on.
  \<^item> The snapshots of \<^verbatim>\<open>merge_sort\<close> on a non-empty input are the before-frame, the frames
    of the merges one after the other, and the final frame; on the empty input there is the
    before-frame only. Each merge starts on a permutation \<open>a\<close> of the input and ends on a
    permutation \<open>a'\<close> of the input; its first frame shows \<open>a\<close>, its last frame shows \<open>a'\<close>,
    and every frame of it shows \<open>a'\<close> up to some position and \<open>a\<close> from there on.
  \<^item> In \<^verbatim>\<open>insertion_sort\<close> and \<^verbatim>\<open>merge_sort\<close> the array of every snapshot has the length of
    the input and holds values of the input only.
\<close>

theorem frames_permutation_outside_moves:
  "(alg \<in> {bubble_sort, selection_sort, quick_sort} \<longrightarrow>
      (\<exists>snaps. alg xs = Some snaps \<and> (\<forall>s\<in>set snaps. mset (array s) = mset xs))) \<and>
   (\<exists>a' segs.
      insertion_sort xs =
        Some (snap xs [] (Some []) None # concat segs @
              [snap a' [] (Some (py_range 0 (py_len xs))) None]) \<and>
      mset a' = mset xs \<and> length segs = nat (py_len xs - 1) \<and>
      (\<forall>seg\<in>set segs. insertion_segment xs seg)) \<and>
   (\<exists>a' segs.
      merge_sort xs =
        Some (if xs = [] then [snap xs [] (Some []) None]
              else snap xs [] (Some []) None # concat segs @
                   [snap a' [] (Some (py_range 0 (py_len xs))) None]) \<and>
      mset a' = mset xs \<and> (\<forall>seg\<in>set segs. merge_segment (\<lambda>x. x) xs seg)) \<and>
   (alg \<in> {insertion_sort, merge_sort} \<longrightarrow>
      (\<exists>snaps. alg xs = Some snaps \<and>
         (\<forall>s\<in>set snaps. length (array s) = length xs \<and> set (array s) \<subseteq> set xs)))"
proof (intro conjI impI)
  assume "alg \<in> {bubble_sort, selection_sort, quick_sort}"
  then consider "alg = bubble_sort" | "alg = selection_sort" | "alg = quick_sort" by blast
  then have "\<exists>a' snaps. alg xs = Some snaps \<and> run_shape xs a' snaps \<and> sorted a' \<and> mset a' = mset xs \<and>
     (\<forall>s\<in>set snaps. frame_perm xs s)"
    using bubble_sort_run[of xs] selection_sort_run[of xs] quick_sort_run[of xs] by cases simp_all
  then show "\<exists>snaps. alg xs = Some snaps \<and> (\<forall>s\<in>set snaps. mset (array s) = mset xs)"
    by (auto simp: frame_perm_def)
next
  show "\<exists>a' segs.
      insertion_sort xs =
        Some (snap xs [] (Some []) None # concat segs @
              [snap a' [] (Some (py_range 0 (py_len xs))) None]) \<and>
      mset a' = mset xs \<and> length segs = nat (py_len xs - 1) \<and>
      (\<forall>seg\<in>set segs. insertion_segment xs seg)"
    by (rule insertion_sort_segments)
next
  show "\<exists>a' segs.
      merge_sort xs =
        Some (if xs = [] then [snap xs [] (Some []) None]
              else snap xs [] (Some []) None # concat segs @
                   [snap a' [] (Some (py_range 0 (py_len xs))) None]) \<and>
      mset a' = mset xs \<and> (\<forall>seg\<in>set segs. merge_segment (\<lambda>x. x) xs seg)"
    by (rule merge_sort_segments)
next
  assume "alg \<in> {insertion_sort, merge_sort}"
  then consider "alg = insertion_sort" | "alg = merge_sort" by blast
  then have "\<exists>a' snaps. alg xs = Some snaps \<and> run_shape xs a' snaps \<and> sorted a' \<and> mset a' = mset xs \<and>
     (\<forall>s\<in>set snaps. frame_sub xs s)"
    using insertion_sort_run[of xs] merge_sort_run[of xs] by cases simp_all
  then show "\<exists>snaps. alg xs = Some snaps \<and>
         (\<forall>s\<in>set snaps. length (array s) = length xs \<and> set (array s) \<subseteq> set xs)"
    by (auto simp: frame_sub_def)
qed

theorem frames_permutation_outside_moves_witness:
  "selection_sort \<in> {bubble_sort, selection_sort, quick_sort} \<and>
   insertion_sort \<in> {insertion_sort, merge_sort} \<and>
   map_option (map array) (selection_sort [2, 1]) = Some [[2, 1], [2, 1], [2, 1], [1, 2], [1, 2]] \<and>
   (\<exists>snaps. selection_sort [2, 1] = Some snaps \<and> list_all (\<lambda>s. mset (array s) = mset [2, 1]) snaps) \<and>
   (\<exists>a' segs.
      insertion_sort [2, 1] =
        Some (snap [2, 1] [] (Some []) None # concat segs @
              [snap a' [] (Some (py_range 0 (py_len [2, 1 :: int]))) None]) \<and>
      mset a' = mset [2, 1] \<and> length segs = 1 \<and> list_all (insertion_segment [2, 1]) segs) \<and>
   (\<exists>a' segs.
      merge_sort [2, 1] =
        Some (snap [2, 1] [] (Some []) None # concat segs @
              [snap a' [] (Some (py_range 0 (py_len [2, 1 :: int]))) None]) \<and>
      mset a' = mset [2, 1] \<and> list_all (merge_segment (\<lambda>x. x) [2, 1]) segs) \<and>
   (\<exists>snaps. insertion_sort [2, 1] = Some snaps \<and>
      list_all (\<lambda>s. length (array s) = length [2, 1 :: int] \<and> set (array s) \<subseteq> set [2, 1]) snaps)"
proof -
  have e: "map_option (map array) (selection_sort [2, 1]) = Some [[2, 1], [2, 1], [2, 1], [1, 2], [1, 2]]"
    by code_simp
  from frames_permutation_outside_moves[of selection_sort "[2, 1]"]
  have 1: "\<exists>snaps. selection_sort [2, 1] = Some snaps \<and> list_all (\<lambda>s. mset (array s) = mset [2, 1]) snaps"
    by (simp add: list_all_iff)
  from frames_permutation_outside_moves[of insertion_sort "[2, 1]"]
  have 2: "\<exists>a' segs.
      insertion_sort [2, 1] =
        Some (snap [2, 1] [] (Some []) None # concat segs @
              [snap a' [] (Some (py_range 0 (py_len [2, 1 :: int]))) None]) \<and>
      mset a' = mset [2, 1] \<and> length segs = 1 \<and> list_all (insertion_segment [2, 1]) segs"
    by (simp add: list_all_iff py_len_def)
  from frames_permutation_outside_moves[of insertion_sort "[2, 1]"]
  have 3: "\<exists>a' segs.
      merge_sort [2, 1] =
        Some (snap [2, 1] [] (Some []) None # concat segs @
              [snap a' [] (Some (py_range 0 (py_len [2, 1 :: int]))) None]) \<and>
      mset a' = mset [2, 1] \<and> list_all (merge_segment (\<lambda>x. x) [2, 1]) segs"
    by (simp add: list_all_iff)
  from frames_permutation_outside_moves[of insertion_sort "[2, 1]"]
  have 4: "\<exists>snaps. insertion_sort [2, 1] = Some snaps \<and>
      list_all (\<lambda>s. length (array s) = length [2, 1 :: int] \<and> set (array s) \<subseteq> set [2, 1]) snaps"
    by (simp add: list_all_iff)
  from e 1 2 3 4 show ?thesis by simp
qed

section \<open>First and last snapshot, lengths\<close>

text \<open>
  C3. For each generator and every input, the first snapshot is the unmodified input with
  empty \<^verbatim>\<open>active\<close> and \<^verbatim>\<open>sorted\<close> lists (for the empty input as well as for a non-empty
  one), the last snapshot has an empty \<^verbatim>\<open>active\<close> list and the \<^verbatim>\<open>sorted\<close> list
  \<open>0, \<dots>, n - 1\<close>, and the array of every snapshot has the length \<open>n\<close> of the input.
\<close>

theorem first_and_last_snapshot:
  "alg \<in> set generators \<Longrightarrow>
   \<exists>snaps. alg xs = Some snaps \<and> snaps \<noteq> [] \<and>
     array (hd snaps) = xs \<and> active (hd snaps) = [] \<and> sorted_idx (hd snaps) = Some [] \<and>
     active (last snaps) = [] \<and> sorted_idx (last snaps) = Some [0..int (length xs) - 1] \<and>
     (\<forall>s\<in>set snaps. length (array s) = length xs)"
proof -
  assume "alg \<in> set generators"
  from generator_run[OF this, of xs]
  obtain a' snaps where r: "alg xs = Some snaps" and sh: "run_shape xs a' snaps"
    and fr: "\<forall>s\<in>set snaps. frame_sub xs s" by blast
  have h: "hd snaps = snap xs [] (Some []) None"
    and l: "last snaps = snap a' [] (Some (py_range 0 (py_len xs))) None"
    and ne: "snaps \<noteq> []" using sh by (simp_all add: run_shape_def)
  have "\<forall>s\<in>set snaps. length (array s) = length xs" using fr by (simp add: frame_sub_def)
  then show ?thesis using r ne h l by (simp add: snap_def py_range_def py_len_def)
qed

theorem first_and_last_snapshot_witness:
  "bubble_sort \<in> set generators \<and>
   map_option hd (bubble_sort [3, 1, 2]) = Some (snap [3, 1, 2] [] (Some []) None) \<and>
   map_option last (bubble_sort [3, 1, 2]) = Some (snap [1, 2, 3] [] (Some [0, 1, 2]) None) \<and>
   (\<exists>snaps. bubble_sort [3, 1, 2] = Some snaps \<and> snaps \<noteq> [] \<and>
     array (hd snaps) = [3, 1, 2] \<and> active (hd snaps) = [] \<and> sorted_idx (hd snaps) = Some [] \<and>
     active (last snaps) = [] \<and> sorted_idx (last snaps) = Some [0..int (length [3, 1, 2 :: int]) - 1] \<and>
     list_all (\<lambda>s. length (array s) = length [3, 1, 2 :: int]) snaps)"
proof -
  have g: "bubble_sort \<in> set generators" by (simp add: generators_def)
  have e: "map_option hd (bubble_sort [3, 1, 2]) = Some (snap [3, 1, 2] [] (Some []) None)"
    "map_option last (bubble_sort [3, 1, 2]) = Some (snap [1, 2, 3] [] (Some [0, 1, 2]) None)"
    by code_simp+
  from first_and_last_snapshot[OF g, of "[3, 1, 2]"]
  have "\<exists>snaps. bubble_sort [3, 1, 2] = Some snaps \<and> snaps \<noteq> [] \<and>
     array (hd snaps) = [3, 1, 2] \<and> active (hd snaps) = [] \<and> sorted_idx (hd snaps) = Some [] \<and>
     active (last snaps) = [] \<and> sorted_idx (last snaps) = Some [0..int (length [3, 1, 2 :: int]) - 1] \<and>
     list_all (\<lambda>s. length (array s) = length [3, 1, 2 :: int]) snaps"
    by (simp only: list_all_iff)
  with g e show ?thesis by blast
qed

section \<open>Active indices\<close>

text \<open>
  C8. For each generator and every input of length \<open>n\<close>, every index in the \<^verbatim>\<open>active\<close>
  list of every yielded snapshot satisfies \<open>0 \<le> idx < n\<close>.
\<close>

theorem active_indices_in_range:
  "alg \<in> set generators \<Longrightarrow>
   \<exists>snaps. alg xs = Some snaps \<and>
     (\<forall>s\<in>set snaps. \<forall>k\<in>set (active s). 0 \<le> k \<and> k < int (length xs))"
proof -
  assume "alg \<in> set generators"
  from generator_run[OF this, of xs]
  obtain a' snaps where r: "alg xs = Some snaps" and fr: "\<forall>s\<in>set snaps. frame_sub xs s" by blast
  have "\<forall>s\<in>set snaps. \<forall>k\<in>set (active s). 0 \<le> k \<and> k < int (length xs)"
    using fr by (simp add: frame_sub_def)
  with r show ?thesis by blast
qed

theorem active_indices_in_range_witness:
  "insertion_sort \<in> set generators \<and>
   map_option (map active) (insertion_sort [2, 1]) = Some [[], [0, 1], [0], [0], []] \<and>
   (\<exists>snaps. insertion_sort [2, 1] = Some snaps \<and>
     list_all (\<lambda>s. list_all (\<lambda>k. 0 \<le> k \<and> k < int (length [2, 1 :: int])) (active s)) snaps)"
proof -
  have g: "insertion_sort \<in> set generators" by (simp add: generators_def)
  have e: "map_option (map active) (insertion_sort [2, 1]) = Some [[], [0, 1], [0], [0], []]"
    by code_simp
  from active_indices_in_range[OF g, of "[2, 1]"]
  have "\<exists>snaps. insertion_sort [2, 1] = Some snaps \<and>
     list_all (\<lambda>s. list_all (\<lambda>k. 0 \<le> k \<and> k < int (length [2, 1 :: int])) (active s)) snaps"
    by (simp only: list_all_iff)
  with g e show ?thesis by blast
qed

section \<open>Termination\<close>

text \<open>
  C9. Every loop of the model is a total function: each \<^theory_text>\<open>function\<close> above comes with its
  termination proof, that of the stack loop of \<^verbatim>\<open>quick_sort\<close> by the total size of the
  pending ranges, which the two ranges pushed after a partition make smaller. On every
  input each generator returns a finite list of snapshots and raises nothing; the stack
  loop, started as \<^verbatim>\<open>quick_sort\<close> starts it, returns, which it does with an empty stack
  only.
\<close>

theorem generators_terminate:
  "(alg \<in> set generators \<longrightarrow> (\<exists>snaps. alg xs = Some snaps)) \<and>
   (\<exists>a' outs. quick_loop [(0, py_len xs - 1)] xs = Some (a', outs))"
proof
  show "alg \<in> set generators \<longrightarrow> (\<exists>snaps. alg xs = Some snaps)"
    using generator_run[of alg xs] by blast
  have "stack_inv [(0, py_len xs - 1)] xs" unfolding py_len_def by (rule stack_inv_init)
  from quick_loop_correct[OF refl refl this]
  show "\<exists>a' outs. quick_loop [(0, py_len xs - 1)] xs = Some (a', outs)" by blast
qed

theorem generators_terminate_witness:
  "quick_sort \<in> set generators \<and> map_option length (quick_sort [3, 1, 2, 5, 4]) = Some 14 \<and>
   (\<exists>snaps. quick_sort [3, 1, 2, 5, 4] = Some snaps) \<and>
   (\<exists>a' outs. quick_loop [(0, py_len [3, 1, 2, 5, 4 :: int] - 1)] [3, 1, 2, 5, 4] = Some (a', outs))"
proof -
  have g: "quick_sort \<in> set generators" by (simp add: generators_def)
  have e: "map_option length (quick_sort [3, 1, 2, 5, 4]) = Some 14" by code_simp
  from generators_terminate[of quick_sort "[3, 1, 2, 5, 4]"] g e show ?thesis by blast
qed

section \<open>Merge sort is stable\<close>

text \<open>
  C4. \<^verbatim>\<open>merge_sort\<close> is stable. With the comparison \<^verbatim>\<open>L[i] <= R[j]\<close> read through a key \<open>f\<close>,
  so that different elements can compare equal: the array of the last snapshot is the
  stable reference sort \<open>sort_key f\<close> of the input, it is sorted by key and the elements
  of each key keep the order they have in the input; and a merge of two one-element runs
  whose heads tie keeps the left one first.
\<close>

theorem merge_sort_stable:
  "(\<exists>snaps. merge_sort_key f xs = Some snaps \<and> snaps \<noteq> [] \<and>
      array (last snaps) = sort_key f xs \<and> sorted (map f (array (last snaps))) \<and>
      (\<forall>k. filter (\<lambda>x. f x = k) (array (last snaps)) = filter (\<lambda>x. f x = k) xs)) \<and>
   (f x = f y \<longrightarrow> (\<exists>outs. merge f 0 1 2 [x, y] = Some ([x, y], outs)))"
proof
  from merge_sort_key_run[of f xs]
  obtain snaps where r: "merge_sort_key f xs = Some snaps"
    and sh: "run_shape xs (sort_key f xs) snaps" by blast
  have l: "array (last snaps) = sort_key f xs" using sh by (rule run_shape_last)
  have ne: "snaps \<noteq> []" using sh by (simp add: run_shape_def)
  have "sorted (map f (sort_key f xs))" by simp
  moreover have "\<forall>k. filter (\<lambda>x. f x = k) (sort_key f xs) = filter (\<lambda>x. f x = k) xs"
    by (simp add: sort_key_stable)
  ultimately show "\<exists>snaps. merge_sort_key f xs = Some snaps \<and> snaps \<noteq> [] \<and>
      array (last snaps) = sort_key f xs \<and> sorted (map f (array (last snaps))) \<and>
      (\<forall>k. filter (\<lambda>x. f x = k) (array (last snaps)) = filter (\<lambda>x. f x = k) xs)"
    using r ne l by simp
next
  show "f x = f y \<longrightarrow> (\<exists>outs. merge f 0 1 2 [x, y] = Some ([x, y], outs))"
  proof
    assume t: "f x = f y"
    have a: "[x, y] = [] @ ([x] @ [y]) @ []" by simp
    from merge_correct[OF a, of 0 1 2 "[x, y]" f]
    obtain outs where "merge f 0 1 2 [x, y] = Some ([] @ merge_lists f [x] [y] @ [], outs)"
      by auto
    then show "\<exists>outs. merge f 0 1 2 [x, y] = Some ([x, y], outs)" using t by simp
  qed
qed

theorem merge_sort_stable_witness:
  "map_option (\<lambda>snaps. array (last snaps))
      (merge_sort_key fst [(2 :: int, ''a''), (1, ''b''), (2, ''c''), (1, ''d'')]) =
     Some [(1, ''b''), (1, ''d''), (2, ''a''), (2, ''c'')] \<and>
   (\<exists>snaps. merge_sort_key fst [(2 :: int, ''a''), (1, ''b''), (2, ''c''), (1, ''d'')] = Some snaps \<and>
      array (last snaps) = sort_key fst [(2 :: int, ''a''), (1, ''b''), (2, ''c''), (1, ''d'')] \<and>
      filter (\<lambda>x. fst x = 2) (array (last snaps)) = [(2, ''a''), (2, ''c'')]) \<and>
   fst (1 :: int, ''b'') = fst (1 :: int, ''d'') \<and>
   (\<exists>outs. merge fst 0 1 2 [(1 :: int, ''b''), (1, ''d'')] = Some ([(1, ''b''), (1, ''d'')], outs))"
proof -
  have e: "map_option (\<lambda>snaps. array (last snaps))
      (merge_sort_key fst [(2 :: int, ''a''), (1, ''b''), (2, ''c''), (1, ''d'')]) =
     Some [(1, ''b''), (1, ''d''), (2, ''a''), (2, ''c'')]"
    by code_simp
  note t = merge_sort_stable[of fst "[(2 :: int, ''a''), (1, ''b''), (2, ''c''), (1, ''d'')]"
      "(1 :: int, ''b'')" "(1 :: int, ''d'')"]
  from t have 1: "\<exists>snaps. merge_sort_key fst [(2 :: int, ''a''), (1, ''b''), (2, ''c''), (1, ''d'')] = Some snaps \<and>
      array (last snaps) = sort_key fst [(2 :: int, ''a''), (1, ''b''), (2, ''c''), (1, ''d'')] \<and>
      filter (\<lambda>x. fst x = 2) (array (last snaps)) = [(2, ''a''), (2, ''c'')]"
    by auto
  from t have 2: "\<exists>outs. merge fst 0 1 2 [(1 :: int, ''b''), (1, ''d'')] = Some ([(1, ''b''), (1, ''d'')], outs)"
    by simp
  from e 1 2 show ?thesis by simp
qed

section \<open>Quick sort places the pivot\<close>

text \<open>
  C5. The frames \<^verbatim>\<open>quick_sort\<close> yields on a non-empty input are the before-frame, then,
  partition after partition in the order the loop \<^verbatim>\<open>while stack\<close> runs them, the frames
  of each partition, then the final frame. The frames of a partition are those of a popped
  range \<open>[low, high]\<close> with \<open>0 \<le> low < high < n\<close>; the last of them is the \<^verbatim>\<open>'pivot placed'\<close>
  frame with \<^verbatim>\<open>active = [i, high]\<close> and \<open>low \<le> i \<le> high\<close>, and in its array the pivot (the
  value that stood at \<open>high\<close> when the range was popped) stands at \<open>i\<close>, every element at a
  position in \<open>[low, i)\<close> is strictly less than it and every element at a position in
  \<open>[i, high]\<close> is greater than or equal to it. No other frame of a partition carries the
  label \<^verbatim>\<open>'pivot placed'\<close>, so these are all the \<^verbatim>\<open>'pivot placed'\<close> frames of the run. On
  the empty input there is no partition.
\<close>

theorem partition_places_pivot:
  "\<exists>a' segs.
     quick_sort xs =
       Some (if xs = [] then [snap xs [] (Some []) None]
             else snap xs [] (Some []) None # concat segs @
                  [snap a' [] (Some (py_range 0 (py_len xs))) None]) \<and>
     (\<forall>seg\<in>set segs. partition_segment seg)"
proof (cases "xs = []")
  case True
  have "quick_sort xs = Some [snap xs [] (Some []) None]"
    using True by (simp add: quick_sort_def py_len_def)
  then show ?thesis
    apply -
    apply (rule exI[of _ "[]"], rule exI[of _ "[]"])
    using True by simp
next
  case False
  have "stack_inv [(0, py_len xs - 1)] xs" unfolding py_len_def by (rule stack_inv_init)
  from quick_loop_segments[OF refl this]
  obtain a' segs where r: "quick_loop [(0, py_len xs - 1)] xs = Some (a', concat segs)"
    and ps: "\<forall>seg\<in>set segs. partition_segment seg" by blast
  have "quick_sort xs = Some (snap xs [] (Some []) None # concat segs @
                  [snap a' [] (Some (py_range 0 (py_len xs))) None])"
    using False r by (simp add: quick_sort_def Let_def py_len_def)
  then show ?thesis
    apply -
    apply (rule exI[of _ a'], rule exI[of _ segs])
    using False ps by simp
qed

theorem partition_places_pivot_witness:
  "map_option (map (\<lambda>s. (array s, active s, label s))) (quick_sort [3, 1, 2]) =
     Some [([3, 1, 2], [], None),
           ([3, 1, 2], [0, 2], Some ''compare to pivot''),
           ([3, 1, 2], [1, 2], Some ''compare to pivot''),
           ([1, 3, 2], [0, 1], Some ''swap smaller''),
           ([1, 2, 3], [1, 2], Some ''pivot placed''),
           ([1, 2, 3], [], None)] \<and>
   (\<exists>a' segs.
     quick_sort [3, 1, 2] =
       Some (snap [3, 1, 2] [] (Some []) None # concat segs @
             [snap a' [] (Some (py_range 0 (py_len [3, 1, 2 :: int]))) None]) \<and>
     list_all partition_segment segs)"
proof -
  have e: "map_option (map (\<lambda>s. (array s, active s, label s))) (quick_sort [3, 1, 2]) =
     Some [([3, 1, 2], [], None),
           ([3, 1, 2], [0, 2], Some ''compare to pivot''),
           ([3, 1, 2], [1, 2], Some ''compare to pivot''),
           ([1, 3, 2], [0, 1], Some ''swap smaller''),
           ([1, 2, 3], [1, 2], Some ''pivot placed''),
           ([1, 2, 3], [], None)]"
    by code_simp
  from partition_places_pivot[of "[3, 1, 2]"]
  have "\<exists>a' segs.
     quick_sort [3, 1, 2] =
       Some (snap [3, 1, 2] [] (Some []) None # concat segs @
             [snap a' [] (Some (py_range 0 (py_len [3, 1, 2 :: int]))) None]) \<and>
     list_all partition_segment segs"
    by (simp add: list_all_iff)
  with e show ?thesis by simp
qed

section \<open>The input list is left unchanged\<close>

text \<open>
  C10. Each generator copies its input at entry and works on the copy. Run to exhaustion
  on the reference \<open>arr\<close> of a list of the heap \<open>h\<close>, each of the five generators returns;
  in the heap \<open>h'\<close> it leaves, the list \<open>arr\<close> and every other list of \<open>h\<close> hold the values
  they held in \<open>h\<close>, and the only new list is the working copy, which holds the array of the
  last snapshot. The snapshots are those of the generator on the value of \<open>arr\<close>.
\<close>

theorem generator_leaves_input_unchanged:
  "(alg_h, alg) \<in> set generators_h \<Longrightarrow> arr < length h \<Longrightarrow>
   \<exists>h' snaps. alg_h h arr = Some (h', snaps) \<and> alg (h ! arr) = Some snaps \<and>
     h' ! arr = h ! arr \<and> take (length h) h' = h \<and>
     h' = h @ [array (last snaps)] \<and> mset (array (last snaps)) = mset (h ! arr)"
proof -
  assume g: "(alg_h, alg) \<in> set generators_h" and r: "arr < length h"
  from generator_run[OF generators_h_value[OF g], of "h ! arr"]
  obtain a' snaps where s: "alg (h ! arr) = Some snaps" and sh: "run_shape (h ! arr) a' snaps"
    and m: "mset a' = mset (h ! arr)" by blast
  have l: "array (last snaps) = a'" using sh by (rule run_shape_last)
  have "alg_h h arr = Some (h @ [array (last snaps)], snaps)"
    using g s by (rule generators_h_sim)
  then show ?thesis using r s l m by (simp add: nth_append)
qed

theorem generator_leaves_input_unchanged_witness:
  "(insertion_sort_h, insertion_sort) \<in> set generators_h \<and>
   (1 :: nat) < length [[9], [3, 1, 2], [7, 7 :: int]] \<and>
   map_option fst (insertion_sort_h [[9], [3, 1, 2], [7, 7]] 1) =
     Some [[9], [3, 1, 2], [7, 7], [1, 2, 3]] \<and>
   (\<exists>h' snaps. insertion_sort_h [[9], [3, 1, 2], [7, 7]] 1 = Some (h', snaps) \<and>
     insertion_sort [3, 1, 2] = Some snaps \<and>
     h' ! 1 = [3, 1, 2] \<and> take 3 h' = [[9], [3, 1, 2], [7, 7]])"
proof -
  have g: "(insertion_sort_h, insertion_sort) \<in> set generators_h" by (simp add: generators_h_def)
  have r: "(1 :: nat) < length [[9], [3, 1, 2], [7, 7 :: int]]" by simp
  have e: "map_option fst (insertion_sort_h [[9], [3, 1, 2], [7, 7]] 1) =
     Some [[9], [3, 1, 2], [7, 7], [1, 2, 3]]" by code_simp
  from generator_leaves_input_unchanged[OF g r]
  have "\<exists>h' snaps. insertion_sort_h [[9], [3, 1, 2], [7, 7]] 1 = Some (h', snaps) \<and>
     insertion_sort [3, 1, 2] = Some snaps \<and>
     h' ! 1 = [3, 1, 2] \<and> take 3 h' = [[9], [3, 1, 2], [7, 7]]"
    by auto
  with g r e show ?thesis by blast
qed

end
